theory Spec2Isabelle
  imports Complex_Main "HOL-Library.AList"
begin

section \<open>postcss-modular-type: the scale generator and its two substitution policies\<close>

text \<open>
  A shallow embedding of \<^verbatim>\<open>src/index.ts\<close>. The plugin creator merges the caller's
  options into \<^verbatim>\<open>defaultConfig\<close>, builds \<^verbatim>\<open>stepsMap\<close> in a loop over the steps
  and returns two visitors, \<^verbatim>\<open>Rule\<close> and \<^verbatim>\<open>Declaration\<close>, that close over the map.
\<close>

subsection \<open>Decimal rendering of integers\<close>

text \<open>
  Template literals render the integers \<^verbatim>\<open>minStep\<close>, \<^verbatim>\<open>maxStep\<close>, \<^verbatim>\<open>power\<close> and
  \<^verbatim>\<open>suffixValues.length\<close> in decimal, with a leading minus sign for negative ones.
\<close>

definition digit_char :: "nat \<Rightarrow> char" where
  "digit_char d = ''0123456789'' ! d"

fun show_nat :: "nat \<Rightarrow> string" where
  "show_nat n = (if n < 10 then [digit_char n] else show_nat (n div 10) @ [digit_char (n mod 10)])"

declare show_nat.simps [simp del]

definition show_int :: "int \<Rightarrow> string" where
  "show_int i = (if i < 0 then ''-'' @ show_nat (nat (- i)) else show_nat (nat i))"

subsection \<open>The Number primitives\<close>

text \<open>
  The arithmetic of the source is that of JavaScript Numbers (IEEE 754 doubles). The
  embedding keeps the Number type abstract: every function takes the primitives it calls
  as a record, so that each theorem holds for whatever these primitives compute.
  \<^item> \<open>number q\<close> is the Number a numeric literal of value \<open>q\<close> denotes;
  \<^item> \<open>add_n\<close>, \<open>sub_n\<close>, \<open>mul_n\<close>, \<open>div_n\<close> are \<^verbatim>\<open>+\<close>, \<^verbatim>\<open>-\<close>, \<^verbatim>\<open>*\<close>, \<^verbatim>\<open>/\<close>;
  \<^item> \<open>to_string x\<close> is the string a template literal renders the Number \<open>x\<close> as;
  \<^item> \<open>pow_n x k\<close> is \<^verbatim>\<open>Math.pow(x, k)\<close> at an integer \<open>k\<close>;
  \<^item> \<open>fixed_digits x p\<close> is the string \<^verbatim>\<open>x.toFixed(p)\<close> returns when \<open>p\<close> is at most 100.
\<close>

record 'n number_ops =
  number :: "rat \<Rightarrow> 'n"
  add_n :: "'n \<Rightarrow> 'n \<Rightarrow> 'n"
  to_string :: "'n \<Rightarrow> string"
  sub_n :: "'n \<Rightarrow> 'n \<Rightarrow> 'n"
  mul_n :: "'n \<Rightarrow> 'n \<Rightarrow> 'n"
  div_n :: "'n \<Rightarrow> 'n \<Rightarrow> 'n"
  pow_n :: "'n \<Rightarrow> int \<Rightarrow> 'n"
  fixed_digits :: "'n \<Rightarrow> nat \<Rightarrow> string"

text \<open>
  The two exceptions the plugin creator can end with: the \<^verbatim>\<open>Error\<close> it throws itself,
  with its message, and the \<^verbatim>\<open>RangeError\<close> of \<^verbatim>\<open>toFixed\<close> for more than 100 digits.
\<close>

datatype error = Error string | RangeError

definition toFixed :: "'n number_ops \<Rightarrow> 'n \<Rightarrow> nat \<Rightarrow> error + string" where
  "toFixed ops x p = (if 100 < p then Inl RangeError else Inr (fixed_digits ops x p))"

text \<open>
  Exact arithmetic on the rationals: the instance at which closed examples are evaluated.
  It agrees with the doubles on the examples below, whose intermediate values are dyadic
  rationals of small size or lie far from a rounding boundary of \<^verbatim>\<open>toFixed\<close>;
  \<open>exact_toFixed\<close> rounds half away from zero, as \<^verbatim>\<open>toFixed\<close> does on the exact value of
  a double (below \<open>10^21\<close>). Its \<open>to_string\<close> is applied to integers only and renders them
  in decimal, as a template literal does below \<open>10^21\<close>.
\<close>

definition pad_digits :: "nat \<Rightarrow> string \<Rightarrow> string" where
  "pad_digits p ds = replicate (Suc p - length ds) CHR ''0'' @ ds"

definition point_at :: "nat \<Rightarrow> string \<Rightarrow> string" where
  "point_at p ds =
     (if p = 0 then ds else take (length ds - p) ds @ ''.'' @ drop (length ds - p) ds)"

definition exact_toFixed :: "rat \<Rightarrow> nat \<Rightarrow> string" where
  "exact_toFixed x p =
     (if x < 0 then ''-'' else []) @
     point_at p (pad_digits p (show_nat (nat \<lfloor>\<bar>x\<bar> * 10 ^ p + 1 / 2\<rfloor>)))"

definition exact_ops :: "rat number_ops" where
  "exact_ops =
     \<lparr>number = (\<lambda>q. q), add_n = (\<lambda>x y. x + y), to_string = (\<lambda>x. show_int \<lfloor>x\<rfloor>),
      sub_n = (\<lambda>x y. x - y), mul_n = (\<lambda>x y. x * y),
      div_n = (\<lambda>x y. x / y), pow_n = (\<lambda>x k. x powi k), fixed_digits = exact_toFixed\<rparr>"

subsection \<open>Configuration\<close>

datatype suffix_type = Numbered | Values

datatype css_unit = Px | Rem

definition unit_str :: "css_unit \<Rightarrow> string" where
  "unit_str u = (case u of Px \<Rightarrow> ''px'' | Rem \<Rightarrow> ''rem'')"

text \<open>
  \<^verbatim>\<open>Config\<close>. The step counts and the precision are natural numbers, the range in which
  a valid configuration takes them; the other numeric fields are Numbers. The loop and the
  test on the number of suffixes count on the naturals, which is what the doubles do up to
  \<open>2^53\<close>; the error message, which can be reached with any step counts, is built with
  the Number primitives.
\<close>

record 'n config =
  minScreenWidth :: 'n
  maxScreenWidth :: 'n
  minFontSize :: 'n
  maxFontSize :: 'n
  minRatio :: 'n
  maxRatio :: 'n
  minStep :: nat
  maxStep :: nat
  precision :: nat
  prefix :: string
  rootFontSize :: 'n
  suffixType :: suffix_type
  suffixValues :: "string list"
  unit :: css_unit
  replaceInline :: bool
  generatorDirective :: string

text \<open>\<^verbatim>\<open>Partial<Config>\<close>: a field is \<open>None\<close> when the caller's object does not have it.\<close>

record 'n options =
  opt_minScreenWidth :: "'n option"
  opt_maxScreenWidth :: "'n option"
  opt_minFontSize :: "'n option"
  opt_maxFontSize :: "'n option"
  opt_minRatio :: "'n option"
  opt_maxRatio :: "'n option"
  opt_minStep :: "nat option"
  opt_maxStep :: "nat option"
  opt_precision :: "nat option"
  opt_prefix :: "string option"
  opt_rootFontSize :: "'n option"
  opt_suffixType :: "suffix_type option"
  opt_suffixValues :: "string list option"
  opt_unit :: "css_unit option"
  opt_replaceInline :: "bool option"
  opt_generatorDirective :: "string option"

definition no_options :: "'n options" where
  "no_options =
     \<lparr>opt_minScreenWidth = None, opt_maxScreenWidth = None, opt_minFontSize = None,
      opt_maxFontSize = None, opt_minRatio = None, opt_maxRatio = None, opt_minStep = None,
      opt_maxStep = None, opt_precision = None, opt_prefix = None, opt_rootFontSize = None,
      opt_suffixType = None, opt_suffixValues = None, opt_unit = None,
      opt_replaceInline = None, opt_generatorDirective = None\<rparr>"

text \<open>The initial value of the module-level constant \<^verbatim>\<open>defaultConfig\<close>.\<close>

definition defaultConfig :: "'n number_ops \<Rightarrow> 'n config" where
  "defaultConfig ops =
     \<lparr>minScreenWidth = number ops 320, maxScreenWidth = number ops 1536,
      minFontSize = number ops 16, maxFontSize = number ops 20,
      minRatio = number ops (12 / 10), maxRatio = number ops (1333 / 1000),
      minStep = 2, maxStep = 5, precision = 2, prefix = ''font-size-'',
      rootFontSize = number ops 16, suffixType = Numbered,
      suffixValues = [''xs'', ''sm'', ''base'', ''md'', ''lg'', ''xl'', ''xxl'', ''xxxl''],
      unit = Rem, replaceInline = False,
      generatorDirective = ''postcss-modular-type-generate''\<rparr>"

text \<open>
  \<^verbatim>\<open>Object.assign(target, source)\<close>: every property the source has is written to the
  target, the others are kept, and the target is what the call returns.
\<close>

definition assign :: "'n config \<Rightarrow> 'n options \<Rightarrow> 'n config" where
  "assign target source =
     \<lparr>minScreenWidth = case_option (minScreenWidth target) id (opt_minScreenWidth source),
      maxScreenWidth = case_option (maxScreenWidth target) id (opt_maxScreenWidth source),
      minFontSize = case_option (minFontSize target) id (opt_minFontSize source),
      maxFontSize = case_option (maxFontSize target) id (opt_maxFontSize source),
      minRatio = case_option (minRatio target) id (opt_minRatio source),
      maxRatio = case_option (maxRatio target) id (opt_maxRatio source),
      minStep = case_option (minStep target) id (opt_minStep source),
      maxStep = case_option (maxStep target) id (opt_maxStep source),
      precision = case_option (precision target) id (opt_precision source),
      prefix = case_option (prefix target) id (opt_prefix source),
      rootFontSize = case_option (rootFontSize target) id (opt_rootFontSize source),
      suffixType = case_option (suffixType target) id (opt_suffixType source),
      suffixValues = case_option (suffixValues target) id (opt_suffixValues source),
      unit = case_option (unit target) id (opt_unit source),
      replaceInline = case_option (replaceInline target) id (opt_replaceInline source),
      generatorDirective =
        case_option (generatorDirective target) id (opt_generatorDirective source)\<rparr>"

subsection \<open>The generator\<close>

text \<open>
  The local variables the body assigns to after their declaration: the four inputs that
  the \<^verbatim>\<open>rem\<close> conversion overwrites, and \<^verbatim>\<open>stepsMap\<close>. A JavaScript \<^verbatim>\<open>Map\<close> keeps its
  keys in insertion order, and \<^verbatim>\<open>set\<close> on a key it already holds replaces the value where
  the key stands: that is \<^const>\<open>AList.update\<close> on an association list.
\<close>

record 'n locals =
  l_minScreenWidth :: 'n
  l_maxScreenWidth :: 'n
  l_minFontSize :: 'n
  l_maxFontSize :: 'n
  stepsMap :: "(string \<times> string) list"

definition init_locals :: "'n config \<Rightarrow> 'n locals" where
  "init_locals c =
     \<lparr>l_minScreenWidth = minScreenWidth c, l_maxScreenWidth = maxScreenWidth c,
      l_minFontSize = minFontSize c, l_maxFontSize = maxFontSize c, stepsMap = []\<rparr>"

definition baseIndex :: "'n config \<Rightarrow> int" where
  "baseIndex c = int (maxStep c) - int (minStep c) - 1"

definition toRem :: "'n number_ops \<Rightarrow> 'n config \<Rightarrow> 'n \<Rightarrow> 'n" where
  "toRem ops c pxValue = div_n ops pxValue (rootFontSize c)"

definition join_comma :: "string list \<Rightarrow> string" where
  "join_comma xs = concat (case xs of [] \<Rightarrow> [] | y # ys \<Rightarrow> y # map (\<lambda>z. '','' @ z) ys)"

definition insufficient :: "'n config \<Rightarrow> bool" where
  "insufficient c \<longleftrightarrow>
     suffixType c = Values \<and> length (suffixValues c) \<le> maxStep c + minStep c"

text \<open>
  The message of the \<^verbatim>\<open>Error\<close>. \<^verbatim>\<open>minStep + maxStep + 1\<close> is an addition of Numbers, and
  the template literal renders the three Numbers with \<open>to_string\<close>; the length of an array
  is an integer below \<open>2^32\<close>, rendered in decimal; \<^verbatim>\<open>suffixValues.toString()\<close> joins the
  elements with commas. \<open>step_number n\<close> is the Number whose value is the step count \<open>n\<close>.
\<close>

definition step_number :: "'n number_ops \<Rightarrow> nat \<Rightarrow> 'n" where
  "step_number ops n = number ops (of_nat n)"

definition message :: "'n number_ops \<Rightarrow> 'n config \<Rightarrow> string" where
  "message ops c =
     ''Insufficient suffixes passed.'' @ [CHR 0x0A] @
     ''Number of steps: '' @ to_string ops (step_number ops (minStep c)) @ ''(minstep) + '' @
       to_string ops (step_number ops (maxStep c)) @ ''(maxStep) + 1(baseStep) = '' @
       to_string ops
         (add_n ops (add_n ops (step_number ops (minStep c)) (step_number ops (maxStep c)))
            (number ops 1)) @ [CHR 0x0A] @
     ''Number of suffixes: '' @ show_nat (length (suffixValues c)) @ [CHR 0x0A] @
     ''Current suffix list: '' @ join_comma (suffixValues c) @ [CHR 0x0A]"

definition to_rem_locals :: "'n number_ops \<Rightarrow> 'n config \<Rightarrow> 'n locals \<Rightarrow> 'n locals" where
  "to_rem_locals ops c L =
     (if unit c = Rem
      then L\<lparr>l_minScreenWidth := toRem ops c (l_minScreenWidth L),
             l_maxScreenWidth := toRem ops c (l_maxScreenWidth L),
             l_minFontSize := toRem ops c (l_minFontSize L),
             l_maxFontSize := toRem ops c (l_maxFontSize L)\<rparr>
      else L)"

text \<open>The constants of one iteration of the loop, each under its name in the source.\<close>

definition power :: "'n config \<Rightarrow> nat \<Rightarrow> int" where
  "power c step = int step - baseIndex c"

definition minStepRatio :: "'n number_ops \<Rightarrow> 'n config \<Rightarrow> nat \<Rightarrow> 'n" where
  "minStepRatio ops c step = pow_n ops (minRatio c) (power c step)"

definition maxStepRatio :: "'n number_ops \<Rightarrow> 'n config \<Rightarrow> nat \<Rightarrow> 'n" where
  "maxStepRatio ops c step = pow_n ops (maxRatio c) (power c step)"

definition fsMinSize :: "'n number_ops \<Rightarrow> 'n config \<Rightarrow> 'n locals \<Rightarrow> nat \<Rightarrow> 'n" where
  "fsMinSize ops c L step = mul_n ops (l_minFontSize L) (minStepRatio ops c step)"

definition fsMaxSize :: "'n number_ops \<Rightarrow> 'n config \<Rightarrow> 'n locals \<Rightarrow> nat \<Rightarrow> 'n" where
  "fsMaxSize ops c L step = mul_n ops (l_maxFontSize L) (maxStepRatio ops c step)"

definition slope :: "'n number_ops \<Rightarrow> 'n config \<Rightarrow> 'n locals \<Rightarrow> nat \<Rightarrow> 'n" where
  "slope ops c L step =
     div_n ops (sub_n ops (fsMaxSize ops c L step) (fsMinSize ops c L step))
       (sub_n ops (l_maxScreenWidth L) (l_minScreenWidth L))"

definition yIntersect :: "'n number_ops \<Rightarrow> 'n config \<Rightarrow> 'n locals \<Rightarrow> nat \<Rightarrow> error + string" where
  "yIntersect ops c L step =
     toFixed ops
       (sub_n ops (fsMinSize ops c L step) (mul_n ops (slope ops c L step) (l_minScreenWidth L)))
       (precision c)"

definition slopeVw :: "'n number_ops \<Rightarrow> 'n config \<Rightarrow> 'n locals \<Rightarrow> nat \<Rightarrow> error + string" where
  "slopeVw ops c L step =
     toFixed ops (mul_n ops (slope ops c L step) (number ops 100)) (precision c)"

definition with_unit :: "'n config \<Rightarrow> error + string \<Rightarrow> error + string" where
  "with_unit c r = (case r of Inl e \<Rightarrow> Inl e | Inr d \<Rightarrow> Inr (d @ unit_str (unit c)))"

definition fsMinFinal :: "'n number_ops \<Rightarrow> 'n config \<Rightarrow> 'n locals \<Rightarrow> nat \<Rightarrow> error + string" where
  "fsMinFinal ops c L step = with_unit c (toFixed ops (fsMinSize ops c L step) (precision c))"

definition fsMaxFinal :: "'n number_ops \<Rightarrow> 'n config \<Rightarrow> 'n locals \<Rightarrow> nat \<Rightarrow> error + string" where
  "fsMaxFinal ops c L step = with_unit c (toFixed ops (fsMaxSize ops c L step) (precision c))"

text \<open>
  \<^verbatim>\<open>suffixValues[step]\<close> beyond the end of the array is \<^verbatim>\<open>undefined\<close>, which a template
  literal renders as the word.
\<close>

definition suffix_at :: "string list \<Rightarrow> nat \<Rightarrow> string" where
  "suffix_at xs i = (if i < length xs then xs ! i else ''undefined'')"

definition key :: "'n config \<Rightarrow> nat \<Rightarrow> string" where
  "key c step =
     (if suffixType c = Values
      then ''--'' @ prefix c @ suffix_at (suffixValues c) step
      else ''--'' @ prefix c @ show_int (power c step))"

definition clamp_text :: "'n config \<Rightarrow> string \<Rightarrow> string \<Rightarrow> string \<Rightarrow> string \<Rightarrow> string" where
  "clamp_text c fsMinF slopeV yInt fsMaxF =
     ''clamp('' @ fsMinF @ '',  '' @ slopeV @ ''vw + '' @ yInt @ unit_str (unit c) @
     '' , '' @ fsMaxF @ '')''"

text \<open>
  \<^verbatim>\<open>value\<close> of the source. The four \<^verbatim>\<open>toFixed\<close> calls run in the order of their
  declarations, and the first to raise ends the iteration.
\<close>

definition value_str :: "'n number_ops \<Rightarrow> 'n config \<Rightarrow> 'n locals \<Rightarrow> nat \<Rightarrow> error + string" where
  "value_str ops c L step =
     (case yIntersect ops c L step of Inl e \<Rightarrow> Inl e | Inr yInt \<Rightarrow>
       (case slopeVw ops c L step of Inl e \<Rightarrow> Inl e | Inr slopeV \<Rightarrow>
         (case fsMinFinal ops c L step of Inl e \<Rightarrow> Inl e | Inr fsMinF \<Rightarrow>
           (case fsMaxFinal ops c L step of Inl e \<Rightarrow> Inl e | Inr fsMaxF \<Rightarrow>
              Inr (clamp_text c fsMinF slopeV yInt fsMaxF)))))"

text \<open>
  The loop \<^verbatim>\<open>for (let step = 0; step <= maxStep + minStep; step++)\<close>, from any step on.
  The result is the exception that ended it, if any, with the local variables at that
  moment.
\<close>

function loop ::
  "'n number_ops \<Rightarrow> 'n config \<Rightarrow> nat \<Rightarrow> 'n locals \<Rightarrow> error option \<times> 'n locals" where
  "loop ops c step L =
     (if step \<le> maxStep c + minStep c
      then (case value_str ops c L step of
              Inl e \<Rightarrow> (Some e, L)
            | Inr v \<Rightarrow>
                loop ops c (Suc step) (L\<lparr>stepsMap := AList.update (key c step) v (stepsMap L)\<rparr>))
      else (None, L))"
  by pat_completeness auto
termination
  by (relation "measure (\<lambda>(ops, c, step, L). Suc (maxStep c + minStep c) - step)") auto

declare loop.simps [simp del]

text \<open>
  The body of the plugin creator from the destructuring of \<^verbatim>\<open>resolvedOptions\<close> down to the
  end of the loop: the spec's \<^verbatim>\<open>generate\<close>.
\<close>

definition generate :: "'n number_ops \<Rightarrow> 'n config \<Rightarrow> error option \<times> 'n locals" where
  "generate ops c =
     (if insufficient c
      then (Some (Error (message ops c)), init_locals c)
      else loop ops c 0 (to_rem_locals ops c (init_locals c)))"

text \<open>
  The plugin creator, with the module-level \<^verbatim>\<open>defaultConfig\<close> as state: it takes the
  object as it stands and returns it as the call leaves it. \<^verbatim>\<open>resolvedOptions\<close> is the
  same object, since \<^verbatim>\<open>Object.assign\<close> returns its target.
\<close>

definition plugin ::
  "'n number_ops \<Rightarrow> 'n options \<Rightarrow> 'n config \<Rightarrow> (error option \<times> 'n locals) \<times> 'n config" where
  "plugin ops opts dflt = (generate ops (assign dflt opts), assign dflt opts)"

subsection \<open>The document model and the \<^verbatim>\<open>Rule\<close> visitor\<close>

text \<open>
  The nodes of a PostCSS document that a rule can hold: declarations, comments, and the
  containers (nested rules and at-rules) with their own children.
\<close>

datatype node =
  N_decl string string
| N_comment string
| N_rule string "node list"
| N_atrule string string "node list"

text \<open>
  \<^verbatim>\<open>container.walkComments(cb)\<close> visits every comment below the container, in document
  order, descending into the containers. The callback of the source either leaves the
  comment or calls \<^verbatim>\<open>replaceWith\<close> on it, so a callback is modelled by the nodes that
  stand in the comment's place afterwards; the walk goes on behind them.
\<close>

fun walk_node :: "(string \<Rightarrow> node list) \<Rightarrow> node \<Rightarrow> node list" where
  "walk_node cb (N_comment t) = cb t"
| "walk_node cb (N_decl p v) = [N_decl p v]"
| "walk_node cb (N_rule sel kids) = [N_rule sel (concat (map (walk_node cb) kids))]"
| "walk_node cb (N_atrule name params kids) =
     [N_atrule name params (concat (map (walk_node cb) kids))]"

definition walkComments :: "(string \<Rightarrow> node list) \<Rightarrow> node list \<Rightarrow> node list" where
  "walkComments cb kids = concat (map (walk_node cb) kids)"

text \<open>\<^verbatim>\<open>fontVars\<close>: one new declaration for each entry of \<^verbatim>\<open>stepsMap\<close>, in its order.\<close>

definition fontVars :: "(string \<times> string) list \<Rightarrow> node list" where
  "fontVars m = map (\<lambda>(k, v). N_decl k v) m"

definition directive_cb :: "'n config \<Rightarrow> (string \<times> string) list \<Rightarrow> string \<Rightarrow> node list" where
  "directive_cb c m text = (if text = generatorDirective c then fontVars m else [N_comment text])"

text \<open>
  The \<^verbatim>\<open>Rule\<close> visitor of a plugin created from configuration \<open>c\<close> with scale mapping
  \<open>m\<close>. PostCSS calls it on rule nodes only.
\<close>

definition Rule :: "'n config \<Rightarrow> (string \<times> string) list \<Rightarrow> node \<Rightarrow> node" where
  "Rule c m rule =
     (if replaceInline c then rule
      else (case rule of
              N_rule sel kids \<Rightarrow> N_rule sel (walkComments (directive_cb c m) kids)
            | _ \<Rightarrow> rule))"

fun nodes :: "node \<Rightarrow> node list" where
  "nodes (N_rule sel kids) = kids"
| "nodes (N_atrule name params kids) = kids"
| "nodes _ = []"

fun comments_of :: "node \<Rightarrow> string list" where
  "comments_of (N_comment t) = [t]"
| "comments_of (N_decl p v) = []"
| "comments_of (N_rule sel kids) = concat (map comments_of kids)"
| "comments_of (N_atrule name params kids) = concat (map comments_of kids)"

text \<open>
  PostCSS walks the document and hands every rule to the \<^verbatim>\<open>Rule\<close> visitor, wherever
  the rule stands: at the top level or inside at-rules. Once the visitor has run on a rule,
  no comment below it carries the directive, so its runs on the rules nested in that rule
  change nothing and are left out. A node that is not a rule is handed to no visitor that
  expands directives.
\<close>

fun visit_rules :: "'n config \<Rightarrow> (string \<times> string) list \<Rightarrow> node \<Rightarrow> node" where
  "visit_rules c m (N_rule sel kids) = Rule c m (N_rule sel kids)"
| "visit_rules c m (N_atrule name params kids) = N_atrule name params (map (visit_rules c m) kids)"
| "visit_rules c m (N_decl p v) = N_decl p v"
| "visit_rules c m (N_comment t) = N_comment t"

definition process_document ::
  "'n config \<Rightarrow> (string \<times> string) list \<Rightarrow> node list \<Rightarrow> node list" where
  "process_document c m doc = map (visit_rules c m) doc"

subsection \<open>Declaration values and the \<^verbatim>\<open>Declaration\<close> visitor\<close>

text \<open>
  The node types of \<^verbatim>\<open>postcss-value-parser\<close>. Its tokenizer is a parameter of the
  visitor; \<^verbatim>\<open>walk\<close> calls the callback on every node, a function node before the nodes
  inside it (the callback of the source never returns \<^verbatim>\<open>false\<close>).
\<close>

datatype vnode =
  Word string
| String_node string
| Div string
| Space string
| Comment_node string
| Unicode_range string
| Function string "vnode list"

fun walk :: "(vnode \<Rightarrow> 's \<Rightarrow> 's) \<Rightarrow> vnode \<Rightarrow> 's \<Rightarrow> 's" where
  "walk cb (Function name kids) s = fold (walk cb) kids (cb (Function name kids) s)"
| "walk cb valueNode s = cb valueNode s"

record decl =
  dprop :: string
  dvalue :: string

text \<open>\<^verbatim>\<open>String.prototype.includes\<close>.\<close>

fun starts_with :: "string \<Rightarrow> string \<Rightarrow> bool" where
  "starts_with s [] = True"
| "starts_with [] (p # ps) = False"
| "starts_with (x # xs) (p # ps) = (x = p \<and> starts_with xs ps)"

fun includes_str :: "string \<Rightarrow> string \<Rightarrow> bool" where
  "includes_str [] p = (p = [])"
| "includes_str (x # xs) p = (starts_with (x # xs) p \<or> includes_str xs p)"

text \<open>
  The callback of the source: on a word node, \<^verbatim>\<open>stepsMap.get\<close>, and the assignment when
  what it returns is truthy, that is, a string that is not empty.
\<close>

definition replace_word :: "(string \<times> string) list \<Rightarrow> vnode \<Rightarrow> decl \<Rightarrow> decl" where
  "replace_word m valueNode d =
     (case valueNode of
        Word w \<Rightarrow>
          (case map_of m w of
             None \<Rightarrow> d
           | Some v \<Rightarrow> (if v \<noteq> [] then d\<lparr>dvalue := v\<rparr> else d))
      | _ \<Rightarrow> d)"

definition Declaration ::
  "'n config \<Rightarrow> (string \<Rightarrow> vnode list) \<Rightarrow> (string \<times> string) list \<Rightarrow> decl \<Rightarrow> decl" where
  "Declaration c valueParser m d =
     (if replaceInline c \<and> includes_str (dvalue d) (prefix c)
      then fold (walk (replace_word m)) (valueParser (dvalue d)) d
      else d)"

fun words_of :: "vnode \<Rightarrow> string list" where
  "words_of (Word w) = [w]"
| "words_of (Function name kids) = concat (map words_of kids)"
| "words_of _ = []"

subsection \<open>Auxiliary definitions for the statements\<close>

text \<open>The string an iteration stores when none of its \<^verbatim>\<open>toFixed\<close> calls raises.\<close>

definition entry_value :: "'n number_ops \<Rightarrow> 'n config \<Rightarrow> 'n locals \<Rightarrow> nat \<Rightarrow> string" where
  "entry_value ops c L step =
     clamp_text c
       (fixed_digits ops (fsMinSize ops c L step) (precision c) @ unit_str (unit c))
       (fixed_digits ops (mul_n ops (slope ops c L step) (number ops 100)) (precision c))
       (fixed_digits ops
          (sub_n ops (fsMinSize ops c L step) (mul_n ops (slope ops c L step) (l_minScreenWidth L)))
          (precision c))
       (fixed_digits ops (fsMaxSize ops c L step) (precision c) @ unit_str (unit c))"

text \<open>
  The template as section 4.1, step h of the specification spells it, with
  \<open>yIntersect\<close> already carrying its unit (step d): one blank after each comma and none
  before.
\<close>

definition spec_clamp_text :: "string \<Rightarrow> string \<Rightarrow> string \<Rightarrow> string \<Rightarrow> string" where
  "spec_clamp_text fsMinF slopeV yInt fsMaxF =
     ''clamp('' @ fsMinF @ '', '' @ slopeV @ ''vw + '' @ yInt @ '', '' @ fsMaxF @ '')''"

text \<open>
  A configuration on which the doubles compute exactly: every intermediate value is a
  small dyadic rational.
\<close>

definition example_config :: "rat config" where
  "example_config =
     \<lparr>minScreenWidth = 256, maxScreenWidth = 1280, minFontSize = 16, maxFontSize = 32,
      minRatio = 2, maxRatio = 2, minStep = 0, maxStep = 1, precision = 2, prefix = ''fs'',
      rootFontSize = 16, suffixType = Numbered, suffixValues = [], unit = Px,
      replaceInline = False, generatorDirective = ''postcss-modular-type-generate''\<rparr>"

section \<open>Lemmas\<close>

subsection \<open>Decimal rendering is injective\<close>

lemma digit_char_inj: "a < 10 \<Longrightarrow> b < 10 \<Longrightarrow> digit_char a = digit_char b \<Longrightarrow> a = b"
  unfolding digit_char_def
  by (subst (asm) nth_eq_iff_index_eq) simp_all

lemma digit_char_in: "d < 10 \<Longrightarrow> digit_char d \<in> set ''0123456789''"
  unfolding digit_char_def by (rule nth_mem) simp

lemma show_nat_nonempty: "show_nat n \<noteq> []"
  by (subst show_nat.simps) simp

lemma show_nat_digits: "set (show_nat n) \<subseteq> set ''0123456789''"
proof (induction n rule: show_nat.induct)
  case (1 n)
  show ?case
  proof (cases "n < 10")
    case True
    then show ?thesis using digit_char_in [of n] by (subst show_nat.simps) simp
  next
    case False
    have "n mod 10 < 10" by simp
    then have "digit_char (n mod 10) \<in> set ''0123456789''" by (rule digit_char_in)
    with False "1.IH" show ?thesis by (subst show_nat.simps) simp
  qed
qed

lemma show_nat_inj: "show_nat m = show_nat n \<Longrightarrow> m = n"
proof (induction m arbitrary: n rule: show_nat.induct)
  case (1 m)
  show ?case
  proof (cases "m < 10")
    case m: True
    show ?thesis
    proof (cases "n < 10")
      case True
      with m "1.prems" show ?thesis
        by (simp add: show_nat.simps [of m] show_nat.simps [of n] digit_char_inj)
    next
      case False
      with m "1.prems" show ?thesis
        using show_nat_nonempty [of "n div 10"]
        by (simp add: show_nat.simps [of m] show_nat.simps [of n])
    qed
  next
    case m: False
    show ?thesis
    proof (cases "n < 10")
      case True
      with m "1.prems" show ?thesis
        using show_nat_nonempty [of "m div 10"]
        by (simp add: show_nat.simps [of m] show_nat.simps [of n])
    next
      case False
      with m "1.prems" have eq: "show_nat (m div 10) = show_nat (n div 10)"
        and dg: "digit_char (m mod 10) = digit_char (n mod 10)"
        by (simp_all add: show_nat.simps [of m] show_nat.simps [of n])
      from "1.IH" [OF m eq] have d: "m div 10 = n div 10" .
      have "m mod 10 = n mod 10" using dg by (intro digit_char_inj) simp_all
      with d show ?thesis by (metis div_mult_mod_eq)
    qed
  qed
qed

lemma show_nat_no_minus: "show_nat n \<noteq> CHR ''-'' # xs"
proof
  assume "show_nat n = CHR ''-'' # xs"
  then have "CHR ''-'' \<in> set (show_nat n)" by simp
  with show_nat_digits [of n] show False by auto
qed

lemma show_int_inj: "show_int i = show_int j \<Longrightarrow> i = j"
proof -
  assume eq: "show_int i = show_int j"
  consider "i < 0" "j < 0" | "i < 0" "0 \<le> j" | "0 \<le> i" "j < 0" | "0 \<le> i" "0 \<le> j"
    by linarith
  then show ?thesis
  proof cases
    case 1
    with eq have "show_nat (nat (- i)) = show_nat (nat (- j))" by (simp add: show_int_def)
    then have "nat (- i) = nat (- j)" by (rule show_nat_inj)
    with 1 show ?thesis by simp
  next
    case 2
    with eq have "show_nat (nat j) = CHR ''-'' # show_nat (nat (- i))" by (simp add: show_int_def)
    then show ?thesis using show_nat_no_minus by blast
  next
    case 3
    with eq have "show_nat (nat i) = CHR ''-'' # show_nat (nat (- j))" by (simp add: show_int_def)
    then show ?thesis using show_nat_no_minus by blast
  next
    case 4
    with eq have "show_nat (nat i) = show_nat (nat j)" by (simp add: show_int_def)
    then have "nat i = nat j" by (rule show_nat_inj)
    with 4 show ?thesis by simp
  qed
qed

subsection \<open>Association lists under update\<close>

lemma update_fresh: "k \<notin> fst ` set m \<Longrightarrow> AList.update k v m = m @ [(k, v)]"
  by (induction m) auto

lemma fold_update_fresh:
  "distinct (map f xs) \<Longrightarrow> f ` set xs \<inter> fst ` set m = {} \<Longrightarrow>
   fold (\<lambda>s. AList.update (f s) (g s)) xs m = m @ map (\<lambda>s. (f s, g s)) xs"
proof (induction xs arbitrary: m)
  case Nil
  then show ?case by simp
next
  case (Cons x xs)
  from Cons.prems have fresh: "f x \<notin> fst ` set m" by auto
  have "f ` set xs \<inter> fst ` set (m @ [(f x, g x)]) = {}"
    using Cons.prems by auto
  with Cons.IH [of "m @ [(f x, g x)]"] Cons.prems fresh show ?case
    by (simp add: update_fresh)
qed

lemma fold_update_keys:
  "fst ` set (fold (\<lambda>s. AList.update (f s) (g s)) xs m) = fst ` set m \<union> f ` set xs"
  by (induction xs arbitrary: m) (auto simp: dom_update)

lemma fold_update_other:
  "k \<notin> f ` set xs \<Longrightarrow>
   map_of (fold (\<lambda>s. AList.update (f s) (g s)) xs m) k = map_of m k"
  by (induction xs arbitrary: m) (auto simp: update_conv')

lemma fold_update_last_writer:
  assumes "s \<in> set xs" and "\<forall>i j. i < j \<and> j < length xs \<and> xs ! i = s \<longrightarrow> f (xs ! j) \<noteq> f s"
  shows "map_of (fold (\<lambda>s. AList.update (f s) (g s)) xs m) (f s) = Some (g s)"
  using assms
proof (induction xs arbitrary: m rule: rev_induct)
  case Nil
  then show ?case by simp
next
  case (snoc x xs)
  show ?case
  proof (cases "x = s")
    case True
    then show ?thesis by (simp add: update_conv')
  next
    case False
    with snoc.prems(1) have mem: "s \<in> set xs" by simp
    then obtain i where i: "i < length xs" "xs ! i = s" by (auto simp: in_set_conv_nth)
    with snoc.prems(2) [rule_format, of i "length xs"] have ne: "f x \<noteq> f s"
      by (simp add: nth_append)
    have "\<forall>i j. i < j \<and> j < length xs \<and> xs ! i = s \<longrightarrow> f (xs ! j) \<noteq> f s"
    proof (intro allI impI)
      fix i j assume h: "i < j \<and> j < length xs \<and> xs ! i = s"
      with snoc.prems(2) [rule_format, of i j] show "f (xs ! j) \<noteq> f s"
        by (simp add: nth_append)
    qed
    with snoc.IH [OF mem] ne show ?thesis by (simp add: update_conv')
  qed
qed

subsection \<open>The loop\<close>

lemma value_str_ok: "precision c \<le> 100 \<Longrightarrow> value_str ops c L s = Inr (entry_value ops c L s)"
  by (simp add: value_str_def entry_value_def yIntersect_def slopeVw_def fsMinFinal_def
      fsMaxFinal_def with_unit_def toFixed_def)

lemma value_str_range: "100 < precision c \<Longrightarrow> value_str ops c L s = Inl RangeError"
  by (simp add: value_str_def yIntersect_def toFixed_def)

lemma value_str_cases: "value_str ops c L s = Inl e \<Longrightarrow> e = RangeError"
  by (cases "precision c \<le> 100") (simp_all add: value_str_ok value_str_range)

lemma entry_value_stepsMap [simp]:
  "entry_value ops c (L\<lparr>stepsMap := m\<rparr>) s = entry_value ops c L s"
  by (simp add: entry_value_def fsMinSize_def fsMaxSize_def slope_def)

lemma loop_fold:
  "precision c \<le> 100 \<Longrightarrow> step \<le> Suc (maxStep c + minStep c) \<Longrightarrow>
   loop ops c step L =
     (None, L\<lparr>stepsMap :=
        fold (\<lambda>s. AList.update (key c s) (entry_value ops c L s))
          [step..<Suc (maxStep c + minStep c)] (stepsMap L)\<rparr>)"
proof (induction ops c step L rule: loop.induct)
  case (1 ops c step L)
  show ?case
  proof (cases "step \<le> maxStep c + minStep c")
    case True
    let ?L = "L\<lparr>stepsMap := AList.update (key c step) (entry_value ops c L step) (stepsMap L)\<rparr>"
    have v: "value_str ops c L step = Inr (entry_value ops c L step)"
      using "1.prems"(1) by (rule value_str_ok)
    have "loop ops c step L = loop ops c (Suc step) ?L"
      using True v by (subst loop.simps) simp
    also have "\<dots> = (None, ?L\<lparr>stepsMap :=
        fold (\<lambda>s. AList.update (key c s) (entry_value ops c ?L s))
          [Suc step..<Suc (maxStep c + minStep c)] (stepsMap ?L)\<rparr>)"
      using True "1.prems"(1) by (intro "1.IH" [OF True v]) simp_all
    finally show ?thesis using True by (simp add: upt_conv_Cons del: upt_Suc)
  next
    case False
    with "1.prems" have "step = Suc (maxStep c + minStep c)" by simp
    then show ?thesis by (subst loop.simps) (simp del: upt_Suc)
  qed
qed

lemma loop_range:
  "100 < precision c \<Longrightarrow> step \<le> maxStep c + minStep c \<Longrightarrow>
   loop ops c step L = (Some RangeError, L)"
  by (subst loop.simps) (simp add: value_str_range)

lemma loop_no_Error: "fst (loop ops c step L) \<noteq> Some (Error m)"
proof (induction ops c step L rule: loop.induct)
  case (1 ops c step L)
  show ?case
  proof (cases "step \<le> maxStep c + minStep c")
    case True
    show ?thesis
    proof (cases "value_str ops c L step")
      case (Inl e)
      with True value_str_cases [OF Inl] show ?thesis by (subst loop.simps) simp
    next
      case (Inr v)
      with True "1.IH" [OF True Inr] show ?thesis by (subst loop.simps) simp
    qed
  next
    case False
    then show ?thesis by (subst loop.simps) simp
  qed
qed

lemma loop_keys:
  "fst ` set (stepsMap (snd (loop ops c step L))) \<subseteq>
     fst ` set (stepsMap L) \<union> key c ` {step..maxStep c + minStep c}"
proof (induction ops c step L rule: loop.induct)
  case (1 ops c step L)
  show ?case
  proof (cases "step \<le> maxStep c + minStep c")
    case True
    show ?thesis
    proof (cases "value_str ops c L step")
      case (Inl e)
      with True show ?thesis by (subst loop.simps) simp
    next
      case (Inr v)
      have "{step..maxStep c + minStep c} = insert step {Suc step..maxStep c + minStep c}"
        using True by auto
      with True Inr "1.IH" [OF True Inr] show ?thesis
        by (subst loop.simps) (auto simp: dom_update)
    qed
  next
    case False
    then show ?thesis by (subst loop.simps) simp
  qed
qed

subsection \<open>The generator\<close>

lemma stepsMap_start [simp]: "stepsMap (to_rem_locals ops c (init_locals c)) = []"
  by (simp add: to_rem_locals_def init_locals_def)

lemma generate_fold:
  assumes "\<not> insufficient c" and "precision c \<le> 100"
  shows "generate ops c =
     (None, (to_rem_locals ops c (init_locals c))\<lparr>stepsMap :=
        fold (\<lambda>s. AList.update (key c s) (entry_value ops c (to_rem_locals ops c (init_locals c)) s))
          [0..<Suc (maxStep c + minStep c)] []\<rparr>)"
  using assms by (simp add: generate_def loop_fold del: upt_Suc)

lemma key_inj_numbered:
  assumes "suffixType c = Numbered" and "key c s = key c t"
  shows "s = t"
proof -
  from assms have "show_int (power c s) = show_int (power c t)" by (simp add: key_def)
  then have "power c s = power c t" by (rule show_int_inj)
  then show ?thesis by (simp add: power_def)
qed

lemma key_inj_values:
  assumes "suffixType c = Values" and "distinct (take N (suffixValues c))"
    and "N \<le> length (suffixValues c)" and "s < N" and "t < N" and "key c s = key c t"
  shows "s = t"
proof -
  from assms have "suffixValues c ! s = suffixValues c ! t" by (simp add: key_def suffix_at_def)
  with assms have "take N (suffixValues c) ! s = take N (suffixValues c) ! t" by simp
  moreover have "s < length (take N (suffixValues c))" "t < length (take N (suffixValues c))"
    using assms by simp_all
  ultimately show ?thesis using assms(2) nth_eq_iff_index_eq by blast
qed

lemma distinct_keys:
  assumes "\<not> insufficient c"
    and "suffixType c = Values \<longrightarrow>
         distinct (take (Suc (maxStep c + minStep c)) (suffixValues c))"
  shows "distinct (map (key c) [0..<Suc (maxStep c + minStep c)])"
proof -
  have "inj_on (key c) (set [0..<Suc (maxStep c + minStep c)])"
  proof (rule inj_onI)
    fix s t
    assume s: "s \<in> set [0..<Suc (maxStep c + minStep c)]"
      and t: "t \<in> set [0..<Suc (maxStep c + minStep c)]" and eq: "key c s = key c t"
    show "s = t"
    proof (cases "suffixType c")
      case Numbered
      then show ?thesis using eq by (rule key_inj_numbered)
    next
      case Values
      with assms have "distinct (take (Suc (maxStep c + minStep c)) (suffixValues c))"
        and "Suc (maxStep c + minStep c) \<le> length (suffixValues c)"
        by (simp_all add: insufficient_def)
      moreover from s t have "s < Suc (maxStep c + minStep c)" "t < Suc (maxStep c + minStep c)"
        by auto
      ultimately show ?thesis using Values eq by (intro key_inj_values [of c _ s t])
    qed
  qed
  then show ?thesis by (simp add: distinct_map del: upt_Suc)
qed

lemma generate_entries:
  assumes "\<not> insufficient c" and "precision c \<le> 100"
    and "suffixType c = Values \<longrightarrow>
         distinct (take (Suc (maxStep c + minStep c)) (suffixValues c))"
  shows "generate ops c =
     (None, (to_rem_locals ops c (init_locals c))\<lparr>stepsMap :=
        map (\<lambda>s. (key c s, entry_value ops c (to_rem_locals ops c (init_locals c)) s))
          [0..<Suc (maxStep c + minStep c)]\<rparr>)"
proof -
  have "fold (\<lambda>s. AList.update (key c s) (entry_value ops c (to_rem_locals ops c (init_locals c)) s))
          [0..<Suc (maxStep c + minStep c)] [] =
        [] @ map (\<lambda>s. (key c s, entry_value ops c (to_rem_locals ops c (init_locals c)) s))
          [0..<Suc (maxStep c + minStep c)]"
    using distinct_keys [OF assms(1,3)] by (intro fold_update_fresh) simp_all
  with generate_fold [OF assms(1,2), of ops] show ?thesis by simp
qed

lemma generate_keys:
  "fst ` set (stepsMap (snd (generate ops c))) \<subseteq> key c ` {0..maxStep c + minStep c}"
proof (cases "insufficient c")
  case True
  then show ?thesis by (simp add: generate_def init_locals_def)
next
  case False
  with loop_keys [of ops c 0 "to_rem_locals ops c (init_locals c)"] show ?thesis
    by (simp add: generate_def)
qed

lemma generate_insufficient:
  "insufficient c \<Longrightarrow> generate ops c = (Some (Error (message ops c)), init_locals c)"
  by (simp add: generate_def)

lemma generate_Error_iff: "(\<exists>m. fst (generate ops c) = Some (Error m)) \<longleftrightarrow> insufficient c"
  by (auto simp: generate_def loop_no_Error)


lemma show_nat_small: "n < 10 \<Longrightarrow> show_nat n = [digit_char n]"
  by (subst show_nat.simps) simp

subsection \<open>Entries of the mapping\<close>

lemma sufficient_iff:
  "\<not> insufficient c \<longleftrightarrow>
   (suffixType c = Values \<longrightarrow> minStep c + maxStep c < length (suffixValues c))"
  by (auto simp: insufficient_def add.commute)

lemma generate_lookup:
  assumes "\<not> insufficient c" and "precision c \<le> 100" and "s \<le> maxStep c + minStep c"
    and "\<forall>t. s < t \<and> t \<le> maxStep c + minStep c \<longrightarrow> key c t \<noteq> key c s"
  shows "map_of (stepsMap (snd (generate ops c))) (key c s) =
     Some (entry_value ops c (to_rem_locals ops c (init_locals c)) s)"
proof -
  let ?xs = "[0..<Suc (maxStep c + minStep c)]"
  have mem: "s \<in> set ?xs" using assms(3) by auto
  have later: "\<forall>i j. i < j \<and> j < length ?xs \<and> ?xs ! i = s \<longrightarrow> key c (?xs ! j) \<noteq> key c s"
  proof (intro allI impI)
    fix i j assume h: "i < j \<and> j < length ?xs \<and> ?xs ! i = s"
    then have "j \<le> maxStep c + minStep c" and "i < length ?xs" by auto
    with h have "?xs ! j = j" and "?xs ! i = i"
      by (auto simp del: upt_Suc simp: nth_upt)
    with h assms(4) \<open>j \<le> maxStep c + minStep c\<close> show "key c (?xs ! j) \<noteq> key c s"
      by auto
  qed
  show ?thesis
    unfolding generate_fold [OF assms(1,2)]
    using fold_update_last_writer [OF mem later] by simp
qed

lemma example_keys: "key example_config 0 = ''--fs0''" "key example_config 1 = ''--fs1''"
  by (simp_all add: key_def example_config_def power_def baseIndex_def show_int_def
      show_nat_small digit_char_def)

lemma example_digits:
  "exact_toFixed 16 2 = ''16.00''" "exact_toFixed 32 2 = ''32.00''"
  "exact_toFixed (25 / 16) 2 = ''1.56''" "exact_toFixed 12 2 = ''12.00''"
  by code_simp+

lemma example_step_0:
  "map_of (stepsMap (snd (generate exact_ops example_config))) ''--fs0'' =
     Some ''clamp(16.00px,  1.56vw + 12.00px , 32.00px)''"
proof -
  have suff: "\<not> insufficient example_config" by (simp add: insufficient_def example_config_def)
  have prec: "precision example_config \<le> 100" by (simp add: example_config_def)
  have s: "0 \<le> maxStep example_config + minStep example_config" by simp
  have later: "\<forall>t. 0 < t \<and> t \<le> maxStep example_config + minStep example_config \<longrightarrow>
      key example_config t \<noteq> key example_config 0"
    using key_inj_numbered [of example_config _ 0] by (auto simp: example_config_def)
  have "entry_value exact_ops example_config
          (to_rem_locals exact_ops example_config (init_locals example_config)) 0 =
        ''clamp(16.00px,  1.56vw + 12.00px , 32.00px)''"
    by (simp add: entry_value_def clamp_text_def fsMinSize_def fsMaxSize_def slope_def
        minStepRatio_def maxStepRatio_def power_def baseIndex_def to_rem_locals_def
        init_locals_def exact_ops_def example_config_def unit_str_def example_digits)
  with generate_lookup [OF suff prec s later, of exact_ops] show ?thesis
    by (simp add: example_keys)
qed

lemma generate_precision_over:
  assumes "\<not> insufficient c" and "100 < precision c"
  shows "generate ops c = (Some RangeError, to_rem_locals ops c (init_locals c))"
  using assms by (simp add: generate_def loop_range)

lemma example_precision_101:
  "fst (generate exact_ops (example_config\<lparr>precision := 101\<rparr>)) = Some RangeError"
  "stepsMap (snd (generate exact_ops (example_config\<lparr>precision := 101\<rparr>))) = []"
proof -
  have "generate exact_ops (example_config\<lparr>precision := 101\<rparr>) =
      (Some RangeError, to_rem_locals exact_ops (example_config\<lparr>precision := 101\<rparr>)
         (init_locals (example_config\<lparr>precision := 101\<rparr>)))"
    by (rule generate_precision_over) (simp_all add: insufficient_def example_config_def)
  then show "fst (generate exact_ops (example_config\<lparr>precision := 101\<rparr>)) = Some RangeError"
    and "stepsMap (snd (generate exact_ops (example_config\<lparr>precision := 101\<rparr>))) = []"
    by simp_all
qed

lemma example_digits_1:
  "exact_toFixed 64 2 = ''64.00''" "exact_toFixed (25 / 8) 2 = ''3.13''"
  "exact_toFixed 24 2 = ''24.00''"
  by code_simp+

lemma duplicate_suffix_overwritten:
  "map_of (stepsMap (snd (generate exact_ops
     (example_config\<lparr>suffixType := Values, suffixValues := [''sm'', ''sm'']\<rparr>)))) ''--fssm'' =
   Some ''clamp(32.00px,  3.13vw + 24.00px , 64.00px)''"
proof -
  let ?c = "example_config\<lparr>suffixType := Values, suffixValues := [''sm'', ''sm'']\<rparr>"
  have suff: "\<not> insufficient ?c" by (simp add: insufficient_def example_config_def)
  have prec: "precision ?c \<le> 100" by (simp add: example_config_def)
  have s: "1 \<le> maxStep ?c + minStep ?c" by (simp add: example_config_def)
  have "maxStep ?c + minStep ?c = 1" by (simp add: example_config_def)
  then have later: "\<forall>t. 1 < t \<and> t \<le> maxStep ?c + minStep ?c \<longrightarrow> key ?c t \<noteq> key ?c 1"
    by auto
  have k: "key ?c (Suc 0) = ''--fssm''" by (simp add: key_def suffix_at_def example_config_def)
  have "entry_value exact_ops ?c (to_rem_locals exact_ops ?c (init_locals ?c)) 1 =
        ''clamp(32.00px,  3.13vw + 24.00px , 64.00px)''"
    by (simp add: entry_value_def clamp_text_def fsMinSize_def fsMaxSize_def slope_def
        minStepRatio_def maxStepRatio_def power_def baseIndex_def to_rem_locals_def
        init_locals_def exact_ops_def example_config_def unit_str_def example_digits
        example_digits_1)
  with generate_lookup [OF suff prec s later, of exact_ops] show ?thesis
    by (simp add: k)
qed

lemma map_int_upt: "map (\<lambda>s. int s + a) [0..<k] = [a..a + int k - 1]"
proof (induction k)
  case 0
  show ?case by simp
next
  case (Suc k)
  have "[a..a + int (Suc k) - 1] = [a..a + int k - 1] @ [a + int k]"
    using upto_rec2 [of a "a + int k"] by simp
  with Suc show ?case by simp
qed

lemma map_nth_take: "N \<le> length xs \<Longrightarrow> map (\<lambda>s. xs ! s) [0..<N] = take N xs"
  by (simp add: list_eq_iff_nth_eq)

lemma generate_duplicate_suffix:
  "map fst (stepsMap (snd (generate exact_ops
     (example_config\<lparr>suffixType := Values, suffixValues := [''sm'', ''sm'']\<rparr>)))) = [''--fssm'']"
proof -
  let ?c = "example_config\<lparr>suffixType := Values, suffixValues := [''sm'', ''sm'']\<rparr>"
  have suff: "\<not> insufficient ?c" by (simp add: insufficient_def example_config_def)
  have prec: "precision ?c \<le> 100" by (simp add: example_config_def)
  have n: "[0..<Suc (maxStep ?c + minStep ?c)] = [0, 1]"
    by (simp add: example_config_def upt_rec)
  have k: "key ?c 0 = ''--fssm''" "key ?c (Suc 0) = ''--fssm''"
    by (simp_all add: key_def suffix_at_def example_config_def)
  show ?thesis
    unfolding generate_fold [OF suff prec] n by (simp add: k)
qed

subsection \<open>The default configuration\<close>

lemma generate_length:
  assumes "\<not> insufficient c" and "precision c \<le> 100"
    and "suffixType c = Values \<longrightarrow>
         distinct (take (Suc (maxStep c + minStep c)) (suffixValues c))"
  shows "length (stepsMap (snd (generate ops c))) = Suc (maxStep c + minStep c)"
  by (simp add: generate_entries [OF assms])

lemma entry_value_px:
  "unit c = Px \<Longrightarrow>
   \<exists>x1 x2 x3 x4. entry_value ops c L s =
     ''clamp('' @ fixed_digits ops x1 (precision c) @ ''px,  '' @
     fixed_digits ops x2 (precision c) @ ''vw + '' @
     fixed_digits ops x3 (precision c) @ ''px , '' @
     fixed_digits ops x4 (precision c) @ ''px)''"
  by (intro exI [of _ "fsMinSize ops c L s"]
      exI [of _ "mul_n ops (slope ops c L s) (number ops 100)"]
      exI [of _ "sub_n ops (fsMinSize ops c L s) (mul_n ops (slope ops c L s) (l_minScreenWidth L))"]
      exI [of _ "fsMaxSize ops c L s"])
    (simp add: entry_value_def clamp_text_def unit_str_def)

lemma default_px_facts:
  "\<not> insufficient ((defaultConfig ops)\<lparr>unit := Px\<rparr>)"
  "precision ((defaultConfig ops)\<lparr>unit := Px\<rparr>) = 2"
  "suffixType ((defaultConfig ops)\<lparr>unit := Px\<rparr>) = Numbered"
  "unit ((defaultConfig ops)\<lparr>unit := Px\<rparr>) = Px"
  "Suc (maxStep ((defaultConfig ops)\<lparr>unit := Px\<rparr>) + minStep ((defaultConfig ops)\<lparr>unit := Px\<rparr>)) = 8"
  by (simp_all add: defaultConfig_def insufficient_def)

lemma default_px_keys:
  "map (key ((defaultConfig ops)\<lparr>unit := Px\<rparr>)) [0..<8] =
     [''--font-size--2'', ''--font-size--1'', ''--font-size-0'', ''--font-size-1'',
      ''--font-size-2'', ''--font-size-3'', ''--font-size-4'', ''--font-size-5'']"
  by (simp add: upt_rec key_def power_def baseIndex_def defaultConfig_def show_int_def
      show_nat_small digit_char_def)

lemma default_px_entries:
  "generate ops ((defaultConfig ops)\<lparr>unit := Px\<rparr>) =
     (None, (to_rem_locals ops ((defaultConfig ops)\<lparr>unit := Px\<rparr>)
               (init_locals ((defaultConfig ops)\<lparr>unit := Px\<rparr>)))\<lparr>stepsMap :=
        map (\<lambda>s. (key ((defaultConfig ops)\<lparr>unit := Px\<rparr>) s,
                  entry_value ops ((defaultConfig ops)\<lparr>unit := Px\<rparr>)
                    (to_rem_locals ops ((defaultConfig ops)\<lparr>unit := Px\<rparr>)
                       (init_locals ((defaultConfig ops)\<lparr>unit := Px\<rparr>))) s))
          [0..<8]\<rparr>)"
proof -
  let ?c = "(defaultConfig ops)\<lparr>unit := Px\<rparr>"
  have "generate ops ?c =
     (None, (to_rem_locals ops ?c (init_locals ?c))\<lparr>stepsMap :=
        map (\<lambda>s. (key ?c s, entry_value ops ?c (to_rem_locals ops ?c (init_locals ?c)) s))
          [0..<Suc (maxStep ?c + minStep ?c)]\<rparr>)"
    by (rule generate_entries) (simp_all add: default_px_facts)
  then show ?thesis unfolding default_px_facts(5) .
qed

lemma default_px_key_list:
  "map fst (stepsMap (snd (generate ops ((defaultConfig ops)\<lparr>unit := Px\<rparr>)))) =
     [''--font-size--2'', ''--font-size--1'', ''--font-size-0'', ''--font-size-1'',
      ''--font-size-2'', ''--font-size-3'', ''--font-size-4'', ''--font-size-5'']"
  by (simp add: default_px_entries comp_def default_px_keys)

lemma assign_no_options: "assign d no_options = d"
  by (simp add: assign_def no_options_def)

lemma assign_minStep:
  "assign d (no_options\<lparr>opt_minStep := Some k\<rparr>) = d\<lparr>minStep := k\<rparr>"
  by (simp add: assign_def no_options_def)

lemma rem_digits: "exact_toFixed 1 2 = ''1.00''" "exact_toFixed 2 2 = ''2.00''"
  by code_simp+

subsection \<open>The \<^verbatim>\<open>Rule\<close> visitor\<close>

lemma walkComments_append:
  "walkComments cb (xs @ ys) = walkComments cb xs @ walkComments cb ys"
  by (simp add: walkComments_def)

lemma walkComments_Cons: "walkComments cb (x # xs) = walk_node cb x @ walkComments cb xs"
  by (simp add: walkComments_def)

lemma concat_singletons: "concat (map (\<lambda>k. [k]) xs) = xs"
  by (induction xs) simp_all

lemma walk_node_no_directive:
  "d \<notin> set (comments_of n) \<Longrightarrow>
   walk_node (\<lambda>t. if t = d then fv else [N_comment t]) n = [n]"
proof (induction n)
  case (N_rule sel kids)
  then have "map (walk_node (\<lambda>t. if t = d then fv else [N_comment t])) kids = map (\<lambda>k. [k]) kids"
    by (intro map_cong [OF refl]) auto
  then have "concat (map (walk_node (\<lambda>t. if t = d then fv else [N_comment t])) kids) = kids"
    by (simp only: concat_singletons)
  then show ?case by simp
next
  case (N_atrule name params kids)
  then have "map (walk_node (\<lambda>t. if t = d then fv else [N_comment t])) kids = map (\<lambda>k. [k]) kids"
    by (intro map_cong [OF refl]) auto
  then have "concat (map (walk_node (\<lambda>t. if t = d then fv else [N_comment t])) kids) = kids"
    by (simp only: concat_singletons)
  then show ?case by simp
qed simp_all

lemma directive_cb_eq:
  "directive_cb c m = (\<lambda>t. if t = generatorDirective c then fontVars m else [N_comment t])"
  by (simp add: directive_cb_def fun_eq_iff)

lemma Rule_no_directive:
  assumes "generatorDirective c \<notin> set (comments_of rule)"
  shows "Rule c m rule = rule"
proof (cases rule)
  case (N_rule sel kids)
  with assms have "walk_node (directive_cb c m) rule = [rule]"
    unfolding directive_cb_eq by (intro walk_node_no_directive)
  with N_rule show ?thesis by (simp add: Rule_def walkComments_def)
qed (simp_all add: Rule_def)

lemma fontVars_comments [simp]: "x \<in> set (fontVars m) \<Longrightarrow> comments_of x = []"
  by (auto simp: fontVars_def)

lemma walk_node_clean:
  "generatorDirective c \<notin> set (concat (map comments_of (walk_node (directive_cb c m) n)))"
proof (induction n)
  case (N_comment t)
  show ?case by (simp add: directive_cb_def)
next
  case (N_decl p v)
  show ?case by simp
next
  case (N_rule sel kids)
  then show ?case by (induction kids) auto
next
  case (N_atrule name params kids)
  then show ?case by (induction kids) auto
qed

lemma Rule_clean: "generatorDirective c \<notin> set (comments_of (Rule c m (N_rule sel kids)))"
  if "\<not> replaceInline c"
proof -
  have "generatorDirective c \<notin>
      set (concat (map comments_of (walk_node (directive_cb c m) (N_rule sel kids))))"
    by (rule walk_node_clean)
  with that show ?thesis by (simp add: Rule_def walkComments_def)
qed

lemma Rule_idempotent: "Rule c m (Rule c m (N_rule sel kids)) = Rule c m (N_rule sel kids)"
proof (cases "replaceInline c")
  case True
  then show ?thesis by (simp add: Rule_def)
next
  case False
  then show ?thesis by (intro Rule_no_directive Rule_clean)
qed

lemma visit_rules_no_directive:
  "generatorDirective c \<notin> set (comments_of n) \<Longrightarrow> visit_rules c m n = n"
proof (induction n)
  case (N_rule sel kids)
  then show ?case by (simp add: Rule_no_directive)
next
  case (N_atrule name params kids)
  then have "map (visit_rules c m) kids = map (\<lambda>k. k) kids"
    by (intro map_cong [OF refl]) auto
  then show ?case by simp
qed simp_all

lemma visit_rules_inline: "replaceInline c \<Longrightarrow> visit_rules c m n = n"
proof (induction n)
  case (N_rule sel kids)
  then show ?case by (simp add: Rule_def)
next
  case (N_atrule name params kids)
  then have "map (visit_rules c m) kids = map (\<lambda>k. k) kids"
    by (intro map_cong [OF refl]) auto
  then show ?case by simp
qed simp_all

lemma top_level_directive_kept:
  "process_document example_config [(''--fs0'', ''a'')]
     [N_comment ''postcss-modular-type-generate'',
      N_atrule ''media'' ''print'' [N_comment ''postcss-modular-type-generate'']] =
   [N_comment ''postcss-modular-type-generate'',
    N_atrule ''media'' ''print'' [N_comment ''postcss-modular-type-generate'']]"
  by (simp add: process_document_def)

subsection \<open>The \<^verbatim>\<open>Declaration\<close> visitor\<close>

lemma starts_with_iff: "starts_with s p \<longleftrightarrow> (\<exists>b. s = p @ b)"
  by (induction s p rule: starts_with.induct) auto

lemma includes_str_iff: "includes_str s p \<longleftrightarrow> (\<exists>a b. s = a @ p @ b)"
proof (induction s)
  case Nil
  show ?case by auto
next
  case (Cons x xs)
  show ?case
  proof
    assume "includes_str (x # xs) p"
    then consider "starts_with (x # xs) p" | "includes_str xs p" by auto
    then show "\<exists>a b. x # xs = a @ p @ b"
    proof cases
      case 1
      then obtain b where "x # xs = p @ b" unfolding starts_with_iff by blast
      then have "x # xs = [] @ p @ b" by simp
      then show ?thesis by blast
    next
      case 2
      with Cons.IH obtain a b where "xs = a @ p @ b" by blast
      then have "x # xs = (x # a) @ p @ b" by simp
      then show ?thesis by blast
    qed
  next
    assume "\<exists>a b. x # xs = a @ p @ b"
    then obtain a b where ab: "x # xs = a @ p @ b" by blast
    show "includes_str (x # xs) p"
    proof (cases a)
      case Nil
      with ab have "starts_with (x # xs) p" unfolding starts_with_iff by auto
      then show ?thesis by simp
    next
      case (Cons y a')
      with ab have "xs = a' @ p @ b" by simp
      with Cons.IH have "includes_str xs p" by blast
      then show ?thesis by simp
    qed
  qed
qed

lemma walk_words:
  "walk (replace_word m) n d = fold (\<lambda>w. replace_word m (Word w)) (words_of n) d"
proof (induction n arbitrary: d)
  case (Function name kids)
  have "fold (walk (replace_word m)) kids d' =
      fold (\<lambda>w. replace_word m (Word w)) (concat (map words_of kids)) d'" for d'
    using Function.IH
  proof (induction kids arbitrary: d')
    case Nil
    show ?case by simp
  next
    case (Cons k kids)
    then show ?case by simp
  qed
  moreover have "replace_word m (Function name kids) d = d" by (simp add: replace_word_def)
  ultimately show ?case by simp
qed (simp_all add: replace_word_def)

lemma fold_walk_words:
  "fold (walk (replace_word m)) ns d =
     fold (\<lambda>w. replace_word m (Word w)) (concat (map words_of ns)) d"
  by (induction ns arbitrary: d) (simp_all add: walk_words)

lemma fold_replace_word:
  assumes "\<forall>v \<in> snd ` set m. v \<noteq> []"
  shows "fold (\<lambda>w. replace_word m (Word w)) ws d =
     d\<lparr>dvalue := last (dvalue d # map (\<lambda>w. the (map_of m w)) (filter (\<lambda>w. w \<in> fst ` set m) ws))\<rparr>"
proof (induction ws arbitrary: d)
  case Nil
  show ?case by simp
next
  case (Cons w ws)
  show ?case
  proof (cases "map_of m w")
    case None
    then have "w \<notin> fst ` set m" by (simp add: map_of_eq_None_iff)
    with None Cons.IH [of d] show ?thesis by (simp add: replace_word_def)
  next
    case (Some v)
    then have mem: "(w, v) \<in> set m" by (rule map_of_SomeD)
    then have "w \<in> fst ` set m" and "v \<noteq> []" using assms by force+
    with Some Cons.IH [of "d\<lparr>dvalue := v\<rparr>"] show ?thesis by (simp add: replace_word_def)
  qed
qed

lemma update_values: "snd ` set (AList.update k v m) \<subseteq> insert v (snd ` set m)"
  by (induction m) auto

lemma value_str_nonempty: "value_str ops c L s = Inr v \<Longrightarrow> v \<noteq> []"
  by (cases "precision c \<le> 100")
    (auto simp: value_str_ok value_str_range entry_value_def clamp_text_def)

lemma loop_values:
  "\<forall>v \<in> snd ` set (stepsMap L). v \<noteq> [] \<Longrightarrow>
   \<forall>v \<in> snd ` set (stepsMap (snd (loop ops c step L))). v \<noteq> []"
proof (induction ops c step L rule: loop.induct)
  case (1 ops c step L)
  show ?case
  proof (cases "step \<le> maxStep c + minStep c")
    case True
    show ?thesis
    proof (cases "value_str ops c L step")
      case (Inl e)
      with True "1.prems" show ?thesis by (subst loop.simps) simp
    next
      case (Inr v)
      have "\<forall>x \<in> snd ` set (AList.update (key c step) v (stepsMap L)). x \<noteq> []"
        using update_values [of "key c step" v "stepsMap L"] value_str_nonempty [OF Inr] "1.prems"
        by blast
      with True Inr "1.IH" [OF True Inr] show ?thesis by (subst loop.simps) simp
    qed
  next
    case False
    with "1.prems" show ?thesis by (subst loop.simps) simp
  qed
qed

lemma generate_values: "\<forall>v \<in> snd ` set (stepsMap (snd (generate ops c))). v \<noteq> []"
proof (cases "insufficient c")
  case True
  then show ?thesis by (simp add: generate_def init_locals_def)
next
  case False
  with loop_values [of "to_rem_locals ops c (init_locals c)" ops c 0] show ?thesis
    by (simp add: generate_def)
qed

lemma default_digits:
  "exact_toFixed 1 2 = ''1.00''" "exact_toFixed (25 / 76) 2 = ''0.33''"
  "exact_toFixed (71 / 76) 2 = ''0.93''" "exact_toFixed (5 / 4) 2 = ''1.25''"
  by code_simp+

lemma default_inline_base_entry:
  "map_of (stepsMap (snd (generate exact_ops ((defaultConfig exact_ops)\<lparr>replaceInline := True\<rparr>))))
     ''--font-size-0'' = Some ''clamp(1.00rem,  0.33vw + 0.93rem , 1.25rem)''"
proof -
  let ?c = "(defaultConfig exact_ops)\<lparr>replaceInline := True\<rparr> :: rat config"
  have suff: "\<not> insufficient ?c" by (simp add: insufficient_def defaultConfig_def)
  have prec: "precision ?c \<le> 100" by (simp add: defaultConfig_def)
  have s: "2 \<le> maxStep ?c + minStep ?c" by (simp add: defaultConfig_def)
  have later: "\<forall>t. 2 < t \<and> t \<le> maxStep ?c + minStep ?c \<longrightarrow> key ?c t \<noteq> key ?c 2"
    using key_inj_numbered [of ?c _ 2] by (auto simp: defaultConfig_def)
  have k: "key ?c 2 = ''--font-size-0''"
    by (simp add: key_def power_def baseIndex_def defaultConfig_def show_int_def
        show_nat_small digit_char_def)
  have "entry_value exact_ops ?c (to_rem_locals exact_ops ?c (init_locals ?c)) 2 =
        ''clamp(1.00rem,  0.33vw + 0.93rem , 1.25rem)''"
    by (simp add: entry_value_def clamp_text_def fsMinSize_def fsMaxSize_def slope_def
        minStepRatio_def maxStepRatio_def power_def baseIndex_def to_rem_locals_def
        init_locals_def toRem_def exact_ops_def defaultConfig_def unit_str_def default_digits)
  with generate_lookup [OF suff prec s later, of exact_ops] show ?thesis
    by (simp add: k)
qed

section \<open>The claims\<close>

text \<open>
  C1 (as amended). For a configuration with enough suffixes and a precision of at most 100,
  and a step \<open>s\<close> in \<open>[0, minStep + maxStep]\<close> whose key no later step writes again, the
  mapping holds under that key the string
  \<^verbatim>\<open>clamp({fsMinFinal},  {slopeVw}vw + {yIntersect} , {fsMaxFinal})\<close>, with two blanks
  after the first comma and one before the second, where the four inputs are divided by
  \<open>rootFontSize\<close> once when the unit is \<open>rem\<close>, \<open>power = s - (maxStep - minStep - 1)\<close>,
  \<open>fsMin = minFontSize * minRatio^power\<close>, \<open>fsMax = maxFontSize * maxRatio^power\<close>,
  \<open>slope = (fsMax - fsMin) / (maxScreenWidth - minScreenWidth)\<close>,
  \<open>yIntersect = fsMin - slope * minScreenWidth\<close> and \<open>slopeVw = slope * 100\<close>, each
  rendered by \<^verbatim>\<open>toFixed(precision)\<close>, the three lengths with the unit appended.
\<close>

theorem step_expression:
  assumes "suffixType c = Values \<longrightarrow> minStep c + maxStep c < length (suffixValues c)"
    and "precision c \<le> 100"
    and "s \<le> minStep c + maxStep c"
    and "\<forall>t. s < t \<and> t \<le> minStep c + maxStep c \<longrightarrow> key c t \<noteq> key c s"
  shows
    "let conv = (\<lambda>x. if unit c = Rem then div_n ops x (rootFontSize c) else x);
         minW = conv (minScreenWidth c);
         maxW = conv (maxScreenWidth c);
         minF = conv (minFontSize c);
         maxF = conv (maxFontSize c);
         pw = int s - (int (maxStep c) - int (minStep c) - 1);
         fsMin = mul_n ops minF (pow_n ops (minRatio c) pw);
         fsMax = mul_n ops maxF (pow_n ops (maxRatio c) pw);
         slp = div_n ops (sub_n ops fsMax fsMin) (sub_n ops maxW minW);
         yInt = fixed_digits ops (sub_n ops fsMin (mul_n ops slp minW)) (precision c) @
                unit_str (unit c);
         slpVw = fixed_digits ops (mul_n ops slp (number ops 100)) (precision c);
         fsMinF = fixed_digits ops fsMin (precision c) @ unit_str (unit c);
         fsMaxF = fixed_digits ops fsMax (precision c) @ unit_str (unit c)
     in fst (generate ops c) = None \<and>
        map_of (stepsMap (snd (generate ops c))) (key c s) =
          Some (''clamp('' @ fsMinF @ '',  '' @ slpVw @ ''vw + '' @ yInt @ '' , '' @
                fsMaxF @ '')'')"
proof -
  have suff: "\<not> insufficient c" using assms(1) by (simp add: sufficient_iff)
  have s: "s \<le> maxStep c + minStep c" using assms(3) by simp
  have later: "\<forall>t. s < t \<and> t \<le> maxStep c + minStep c \<longrightarrow> key c t \<noteq> key c s"
    using assms(4) by (simp add: add.commute)
  have none: "fst (generate ops c) = None"
    by (simp add: generate_fold [OF suff assms(2)])
  show ?thesis
    unfolding Let_def generate_lookup [OF suff assms(2) s later]
    using none
    by (simp add: entry_value_def clamp_text_def fsMinSize_def fsMaxSize_def slope_def
        minStepRatio_def maxStepRatio_def power_def baseIndex_def to_rem_locals_def
        init_locals_def toRem_def)
qed

theorem step_expression_witness:
  "fst (generate exact_ops example_config) = None \<and>
   map_of (stepsMap (snd (generate exact_ops example_config))) ''--fs0'' =
     Some ''clamp(16.00px,  1.56vw + 12.00px , 32.00px)''"
proof -
  have later: "\<forall>t. 0 < t \<and> t \<le> minStep example_config + maxStep example_config \<longrightarrow>
      key example_config t \<noteq> key example_config 0"
    using key_inj_numbered [of example_config _ 0] by (auto simp: example_config_def)
  have "suffixType example_config = Values \<longrightarrow>
      minStep example_config + maxStep example_config < length (suffixValues example_config)"
    and "precision example_config \<le> 100"
    and "0 \<le> minStep example_config + maxStep example_config"
    by (simp_all add: example_config_def)
  from step_expression [OF this later, of exact_ops] show ?thesis
    by (simp add: Let_def example_keys)
      (simp add: exact_ops_def example_config_def unit_str_def example_digits)
qed

theorem step_expression_counterexample:
  "map_of (stepsMap (snd (generate exact_ops example_config))) (key example_config 0) =
     Some ''clamp(16.00px,  1.56vw + 12.00px , 32.00px)'' \<and>
   map_of (stepsMap (snd (generate exact_ops example_config))) (key example_config 0) \<noteq>
     Some (spec_clamp_text ''16.00px'' ''1.56'' ''12.00px'' ''32.00px'') \<and>
   fst (generate exact_ops (example_config\<lparr>precision := 101\<rparr>)) = Some RangeError \<and>
   stepsMap (snd (generate exact_ops (example_config\<lparr>precision := 101\<rparr>))) = [] \<and>
   map_of (stepsMap (snd (generate exact_ops
       (example_config\<lparr>suffixType := Values, suffixValues := [''sm'', ''sm'']\<rparr>))))
     (key (example_config\<lparr>suffixType := Values, suffixValues := [''sm'', ''sm'']\<rparr>) 0) =
     Some ''clamp(32.00px,  3.13vw + 24.00px , 64.00px)''"
proof -
  have "key (example_config\<lparr>suffixType := Values, suffixValues := [''sm'', ''sm'']\<rparr>) 0 =
      ''--fssm''"
    by (simp add: key_def suffix_at_def example_config_def)
  then show ?thesis
    by (simp add: example_keys example_step_0 spec_clamp_text_def example_precision_101
        duplicate_suffix_overwritten)
qed

text \<open>
  C2 (as amended). For a configuration with enough suffixes and a precision of at most 100
  whose first \<open>minStep + maxStep + 1\<close> suffixes are distinct when \<open>suffixType\<close> is
  \<open>values\<close>, the generator returns a mapping of exactly \<open>minStep + maxStep + 1\<close> entries.
\<close>

theorem entry_count:
  assumes "suffixType c = Values \<longrightarrow> minStep c + maxStep c < length (suffixValues c)"
    and "precision c \<le> 100"
    and "suffixType c = Values \<longrightarrow>
         distinct (take (minStep c + maxStep c + 1) (suffixValues c))"
  shows "fst (generate ops c) = None \<and>
         length (stepsMap (snd (generate ops c))) = minStep c + maxStep c + 1"
proof -
  have suff: "\<not> insufficient c" using assms(1) by (simp add: sufficient_iff)
  have dist: "suffixType c = Values \<longrightarrow>
      distinct (take (Suc (maxStep c + minStep c)) (suffixValues c))"
    using assms(3) by (simp add: add.commute)
  show ?thesis by (simp add: generate_entries [OF suff assms(2) dist])
qed

theorem entry_count_witness:
  "fst (generate exact_ops (example_config\<lparr>suffixType := Values, suffixValues := [''sm'', ''lg'']\<rparr>)) =
     None \<and>
   length (stepsMap (snd (generate exact_ops
     (example_config\<lparr>suffixType := Values, suffixValues := [''sm'', ''lg'']\<rparr>)))) = 2"
  using entry_count
    [of "example_config\<lparr>suffixType := Values, suffixValues := [''sm'', ''lg'']\<rparr>" exact_ops]
  by (simp add: example_config_def)

theorem entry_count_counterexample:
  "length (stepsMap (snd (generate exact_ops
     (example_config\<lparr>suffixType := Values, suffixValues := [''sm'', ''sm'']\<rparr>)))) \<noteq>
   minStep (example_config\<lparr>suffixType := Values, suffixValues := [''sm'', ''sm'']\<rparr>) +
   maxStep (example_config\<lparr>suffixType := Values, suffixValues := [''sm'', ''sm'']\<rparr>) + 1 \<and>
   length (stepsMap (snd (generate exact_ops (example_config\<lparr>precision := 101\<rparr>)))) \<noteq>
   minStep (example_config\<lparr>precision := 101\<rparr>) +
   maxStep (example_config\<lparr>precision := 101\<rparr>) + 1"
proof -
  have "length (map fst (stepsMap (snd (generate exact_ops
     (example_config\<lparr>suffixType := Values, suffixValues := [''sm'', ''sm'']\<rparr>))))) = 1"
    unfolding generate_duplicate_suffix by simp
  then have dup: "length (stepsMap (snd (generate exact_ops
     (example_config\<lparr>suffixType := Values, suffixValues := [''sm'', ''sm'']\<rparr>)))) = 1"
    by simp
  have n: "minStep (example_config\<lparr>suffixType := Values, suffixValues := [''sm'', ''sm'']\<rparr>) +
      maxStep (example_config\<lparr>suffixType := Values, suffixValues := [''sm'', ''sm'']\<rparr>) + 1 = 2"
    "minStep (example_config\<lparr>precision := 101\<rparr>) +
      maxStep (example_config\<lparr>precision := 101\<rparr>) + 1 = 2"
    by (simp_all add: example_config_def)
  show ?thesis unfolding dup n example_precision_101 by simp
qed

text \<open>
  C3. The generator ends with the \<^verbatim>\<open>Error\<close> of the source exactly when \<open>suffixType\<close> is
  \<open>values\<close> and \<open>suffixValues\<close> has at most \<open>minStep + maxStep\<close> elements. It is then
  raised before any other work: \<open>stepsMap\<close> is empty and the four inputs are as configured,
  not converted to \<open>rem\<close>. Its message holds the required count \<open>minStep + maxStep + 1\<close>
  as the Numbers compute and render it, the number of suffixes configured and the whole
  list, joined by commas. Where the count is at most \<open>2^53\<close>, the range in which the
  doubles add integers exactly and render them in decimal, the message holds the two step
  counts and their sum plus one in decimal.
\<close>

theorem insufficient_suffixes_error:
  "((\<exists>m. fst (generate ops c) = Some (Error m)) \<longleftrightarrow>
      (suffixType c = Values \<and> length (suffixValues c) \<le> minStep c + maxStep c)) \<and>
   (suffixType c = Values \<and> length (suffixValues c) \<le> minStep c + maxStep c \<longrightarrow>
      generate ops c =
        (Some (Error
           (''Insufficient suffixes passed.'' @ [CHR 0x0A] @
            ''Number of steps: '' @ to_string ops (number ops (of_nat (minStep c))) @
              ''(minstep) + '' @ to_string ops (number ops (of_nat (maxStep c))) @
              ''(maxStep) + 1(baseStep) = '' @
              to_string ops
                (add_n ops
                   (add_n ops (number ops (of_nat (minStep c))) (number ops (of_nat (maxStep c))))
                   (number ops 1)) @ [CHR 0x0A] @
            ''Number of suffixes: '' @ show_nat (length (suffixValues c)) @ [CHR 0x0A] @
            ''Current suffix list: '' @ join_comma (suffixValues c) @ [CHR 0x0A])),
         \<lparr>l_minScreenWidth = minScreenWidth c, l_maxScreenWidth = maxScreenWidth c,
          l_minFontSize = minFontSize c, l_maxFontSize = maxFontSize c, stepsMap = []\<rparr>) \<and>
      ((\<forall>n. n \<le> 2 ^ 53 \<longrightarrow> to_string ops (number ops (of_nat n)) = show_nat n) \<and>
       (\<forall>a b. a + b \<le> 2 ^ 53 \<longrightarrow>
          add_n ops (number ops (of_nat a)) (number ops (of_nat b)) = number ops (of_nat (a + b))) \<and>
       minStep c + maxStep c + 1 \<le> 2 ^ 53 \<longrightarrow>
       generate ops c =
        (Some (Error
           (''Insufficient suffixes passed.'' @ [CHR 0x0A] @
            ''Number of steps: '' @ show_nat (minStep c) @ ''(minstep) + '' @
              show_nat (maxStep c) @ ''(maxStep) + 1(baseStep) = '' @
              show_nat (minStep c + maxStep c + 1) @ [CHR 0x0A] @
            ''Number of suffixes: '' @ show_nat (length (suffixValues c)) @ [CHR 0x0A] @
            ''Current suffix list: '' @ join_comma (suffixValues c) @ [CHR 0x0A])),
         \<lparr>l_minScreenWidth = minScreenWidth c, l_maxScreenWidth = maxScreenWidth c,
          l_minFontSize = minFontSize c, l_maxFontSize = maxFontSize c, stepsMap = []\<rparr>)))"
proof -
  have cond: "insufficient c \<longleftrightarrow>
      suffixType c = Values \<and> length (suffixValues c) \<le> minStep c + maxStep c"
    by (simp add: insufficient_def add.commute)
  have iff: "(\<exists>m. fst (generate ops c) = Some (Error m)) \<longleftrightarrow>
      (suffixType c = Values \<and> length (suffixValues c) \<le> minStep c + maxStep c)"
    using generate_Error_iff [of ops c] unfolding cond .
  have raw: "generate ops c = (Some (Error (message ops c)),
      \<lparr>l_minScreenWidth = minScreenWidth c, l_maxScreenWidth = maxScreenWidth c,
       l_minFontSize = minFontSize c, l_maxFontSize = maxFontSize c, stepsMap = []\<rparr>)"
    if "suffixType c = Values \<and> length (suffixValues c) \<le> minStep c + maxStep c"
    using that generate_insufficient [of c ops] unfolding cond by (simp add: init_locals_def)
  have dec: "message ops c =
      ''Insufficient suffixes passed.'' @ [CHR 0x0A] @
      ''Number of steps: '' @ show_nat (minStep c) @ ''(minstep) + '' @
        show_nat (maxStep c) @ ''(maxStep) + 1(baseStep) = '' @
        show_nat (minStep c + maxStep c + 1) @ [CHR 0x0A] @
      ''Number of suffixes: '' @ show_nat (length (suffixValues c)) @ [CHR 0x0A] @
      ''Current suffix list: '' @ join_comma (suffixValues c) @ [CHR 0x0A]"
    if str: "\<forall>n. n \<le> 2 ^ 53 \<longrightarrow> to_string ops (number ops (of_nat n)) = show_nat n"
      and add: "\<forall>a b. a + b \<le> 2 ^ 53 \<longrightarrow>
          add_n ops (number ops (of_nat a)) (number ops (of_nat b)) = number ops (of_nat (a + b))"
      and safe: "minStep c + maxStep c + 1 \<le> 2 ^ 53"
  proof -
    from safe have le: "minStep c \<le> 2 ^ 53" "maxStep c \<le> 2 ^ 53"
      "minStep c + maxStep c \<le> 2 ^ 53" by simp_all
    have s1: "add_n ops (number ops (of_nat (minStep c))) (number ops (of_nat (maxStep c))) =
        number ops (of_nat (minStep c + maxStep c))"
      using add le(3) by blast
    have "add_n ops (number ops (of_nat (minStep c + maxStep c))) (number ops (of_nat 1)) =
        number ops (of_nat (minStep c + maxStep c + 1))"
      using add safe by blast
    then have s2: "add_n ops (number ops (of_nat (minStep c + maxStep c))) (number ops 1) =
        number ops (of_nat (minStep c + maxStep c + 1))"
      by simp
    have t: "to_string ops (number ops (of_nat (minStep c))) = show_nat (minStep c)"
      "to_string ops (number ops (of_nat (maxStep c))) = show_nat (maxStep c)"
      "to_string ops (number ops (of_nat (minStep c + maxStep c + 1))) =
         show_nat (minStep c + maxStep c + 1)"
      using str le(1,2) safe by blast+
    show ?thesis unfolding message_def step_number_def s1 s2 t ..
  qed
  from iff raw dec show ?thesis unfolding message_def step_number_def by auto
qed

theorem insufficient_suffixes_error_witness:
  "generate exact_ops
     (example_config\<lparr>minStep := 1, suffixType := Values, suffixValues := [''xs'', ''sm'']\<rparr>) =
   (Some (Error
      (''Insufficient suffixes passed.'' @ [CHR 0x0A] @
       ''Number of steps: 1(minstep) + 1(maxStep) + 1(baseStep) = 3'' @ [CHR 0x0A] @
       ''Number of suffixes: 2'' @ [CHR 0x0A] @
       ''Current suffix list: xs,sm'' @ [CHR 0x0A])),
    \<lparr>l_minScreenWidth = 256, l_maxScreenWidth = 1280, l_minFontSize = 16,
     l_maxFontSize = 32, stepsMap = []\<rparr>)"
proof -
  let ?c = "example_config\<lparr>minStep := 1, suffixType := Values, suffixValues := [''xs'', ''sm'']\<rparr>"
  have cond: "suffixType ?c = Values \<and> length (suffixValues ?c) \<le> minStep ?c + maxStep ?c"
    by (simp add: example_config_def)
  have str: "\<forall>n. n \<le> 2 ^ 53 \<longrightarrow> to_string exact_ops (number exact_ops (of_nat n)) = show_nat n"
    by (simp add: exact_ops_def show_int_def)
  have add: "\<forall>a b. a + b \<le> 2 ^ 53 \<longrightarrow>
      add_n exact_ops (number exact_ops (of_nat a)) (number exact_ops (of_nat b)) =
      number exact_ops (of_nat (a + b))"
    by (simp add: exact_ops_def)
  have safe: "minStep ?c + maxStep ?c + 1 \<le> 2 ^ 53" by (simp add: example_config_def)
  from insufficient_suffixes_error [of exact_ops ?c] cond str add safe
  have "generate exact_ops ?c =
        (Some (Error
           (''Insufficient suffixes passed.'' @ [CHR 0x0A] @
            ''Number of steps: '' @ show_nat (minStep ?c) @ ''(minstep) + '' @
              show_nat (maxStep ?c) @ ''(maxStep) + 1(baseStep) = '' @
              show_nat (minStep ?c + maxStep ?c + 1) @ [CHR 0x0A] @
            ''Number of suffixes: '' @ show_nat (length (suffixValues ?c)) @ [CHR 0x0A] @
            ''Current suffix list: '' @ join_comma (suffixValues ?c) @ [CHR 0x0A])),
         \<lparr>l_minScreenWidth = minScreenWidth ?c, l_maxScreenWidth = maxScreenWidth ?c,
          l_minFontSize = minFontSize ?c, l_maxFontSize = maxFontSize ?c, stepsMap = []\<rparr>)"
    by blast
  then show ?thesis
    by (simp add: example_config_def show_nat_small digit_char_def join_comma_def)
qed

text \<open>
  C4 (as amended). Under the conditions of C2 the entries of the mapping are those of the
  steps \<open>0, ..., minStep + maxStep\<close> in this order, one each, and the keys are distinct.
  With numbered suffixes the key of step \<open>s\<close> is \<open>--{prefix}{power}\<close>, with
  \<open>power = s - (maxStep - minStep - 1)\<close> running from \<open>- baseIndex\<close> to
  \<open>minStep + maxStep - baseIndex\<close>; with \<open>values\<close> the keys are \<open>--{prefix}{x}\<close> for \<open>x\<close>
  in the first \<open>minStep + maxStep + 1\<close> elements of \<open>suffixValues\<close>, in their order.
\<close>

theorem keys_in_step_order:
  assumes "suffixType c = Values \<longrightarrow> minStep c + maxStep c < length (suffixValues c)"
    and "precision c \<le> 100"
    and "suffixType c = Values \<longrightarrow>
         distinct (take (minStep c + maxStep c + 1) (suffixValues c))"
  shows
    "stepsMap (snd (generate ops c)) =
       map (\<lambda>step.
             (if suffixType c = Values then ''--'' @ prefix c @ suffixValues c ! step
              else ''--'' @ prefix c @
                   show_int (int step - (int (maxStep c) - int (minStep c) - 1)),
              entry_value ops c (to_rem_locals ops c (init_locals c)) step))
         [0..<minStep c + maxStep c + 1] \<and>
     distinct (map fst (stepsMap (snd (generate ops c)))) \<and>
     (suffixType c = Numbered \<longrightarrow>
        map fst (stepsMap (snd (generate ops c))) =
          map (\<lambda>p. ''--'' @ prefix c @ show_int p)
            [- baseIndex c..int (minStep c + maxStep c) - baseIndex c]) \<and>
     (suffixType c = Values \<longrightarrow>
        map fst (stepsMap (snd (generate ops c))) =
          map (\<lambda>x. ''--'' @ prefix c @ x) (take (minStep c + maxStep c + 1) (suffixValues c)))"
proof -
  let ?n = "Suc (maxStep c + minStep c)"
  let ?L = "to_rem_locals ops c (init_locals c)"
  have suff: "\<not> insufficient c" using assms(1) by (simp add: sufficient_iff)
  have dist: "suffixType c = Values \<longrightarrow> distinct (take ?n (suffixValues c))"
    using assms(3) by (simp add: add.commute)
  have n: "minStep c + maxStep c + 1 = ?n" by simp
  have gen: "stepsMap (snd (generate ops c)) = map (\<lambda>s. (key c s, entry_value ops c ?L s)) [0..<?n]"
    by (simp add: generate_entries [OF suff assms(2) dist] del: upt_Suc)
  have keys: "map fst (stepsMap (snd (generate ops c))) = map (key c) [0..<?n]"
    unfolding gen by (simp add: comp_def del: upt_Suc)
  have in_range: "suffixType c = Values \<Longrightarrow> s < ?n \<Longrightarrow> s < length (suffixValues c)" for s
    using suff by (simp add: insufficient_def)
  have 1: "stepsMap (snd (generate ops c)) =
       map (\<lambda>step.
             (if suffixType c = Values then ''--'' @ prefix c @ suffixValues c ! step
              else ''--'' @ prefix c @
                   show_int (int step - (int (maxStep c) - int (minStep c) - 1)),
              entry_value ops c ?L step))
         [0..<minStep c + maxStep c + 1]"
    unfolding gen n
    by (rule map_cong [OF refl])
      (auto simp: key_def suffix_at_def power_def baseIndex_def dest: in_range)
  have 2: "distinct (map fst (stepsMap (snd (generate ops c))))"
    unfolding keys using suff dist by (rule distinct_keys)
  have 3: "map fst (stepsMap (snd (generate ops c))) =
          map (\<lambda>p. ''--'' @ prefix c @ show_int p)
            [- baseIndex c..int (minStep c + maxStep c) - baseIndex c]"
    if "suffixType c = Numbered"
  proof -
    have "map (key c) [0..<?n] =
        map (\<lambda>p. ''--'' @ prefix c @ show_int p) (map (\<lambda>s. int s + (- baseIndex c)) [0..<?n])"
      using that by (simp add: key_def power_def comp_def del: upt_Suc)
    also have "map (\<lambda>s. int s + (- baseIndex c)) [0..<?n] =
        [- baseIndex c..int (minStep c + maxStep c) - baseIndex c]"
      unfolding map_int_upt by (simp add: algebra_simps)
    finally show ?thesis unfolding keys .
  qed
  have 4: "map fst (stepsMap (snd (generate ops c))) =
          map (\<lambda>x. ''--'' @ prefix c @ x) (take (minStep c + maxStep c + 1) (suffixValues c))"
    if "suffixType c = Values"
  proof -
    have len: "?n \<le> length (suffixValues c)" using suff that by (simp add: insufficient_def)
    have "map (key c) [0..<?n] =
        map (\<lambda>x. ''--'' @ prefix c @ x) (map (\<lambda>s. suffixValues c ! s) [0..<?n])"
      unfolding map_map
      by (rule map_cong [OF refl]) (use that in_range in \<open>auto simp: key_def suffix_at_def\<close>)
    then show ?thesis unfolding keys n map_nth_take [OF len] .
  qed
  from 1 2 3 4 show ?thesis by blast
qed

theorem keys_in_step_order_witness:
  "map fst (stepsMap (snd (generate exact_ops
     (example_config\<lparr>minStep := 1, suffixType := Values, suffixValues := [''sm'', ''md'', ''lg'']\<rparr>)))) =
   [''--fssm'', ''--fsmd'', ''--fslg'']"
proof -
  let ?c = "example_config\<lparr>minStep := 1, suffixType := Values, suffixValues := [''sm'', ''md'', ''lg'']\<rparr>"
  have "suffixType ?c = Values \<longrightarrow> minStep ?c + maxStep ?c < length (suffixValues ?c)"
    and "precision ?c \<le> 100"
    and "suffixType ?c = Values \<longrightarrow> distinct (take (minStep ?c + maxStep ?c + 1) (suffixValues ?c))"
    and "suffixType ?c = Values"
    by (simp_all add: example_config_def)
  with keys_in_step_order [of ?c exact_ops] show ?thesis
    by (simp add: example_config_def)
qed

theorem keys_in_step_order_counterexample:
  "map fst (stepsMap (snd (generate exact_ops
     (example_config\<lparr>suffixType := Values, suffixValues := [''sm'', ''sm'']\<rparr>)))) \<noteq>
   map (\<lambda>x. ''--'' @ prefix (example_config\<lparr>suffixType := Values, suffixValues := [''sm'', ''sm'']\<rparr>) @ x)
     (take (minStep (example_config\<lparr>suffixType := Values, suffixValues := [''sm'', ''sm'']\<rparr>) +
            maxStep (example_config\<lparr>suffixType := Values, suffixValues := [''sm'', ''sm'']\<rparr>) + 1)
        (suffixValues (example_config\<lparr>suffixType := Values, suffixValues := [''sm'', ''sm'']\<rparr>))) \<and>
   map fst (stepsMap (snd (generate exact_ops (example_config\<lparr>precision := 101\<rparr>)))) \<noteq>
   map (key (example_config\<lparr>precision := 101\<rparr>))
     [0..<minStep (example_config\<lparr>precision := 101\<rparr>) +
          maxStep (example_config\<lparr>precision := 101\<rparr>) + 1]"
proof -
  have n: "minStep (example_config\<lparr>precision := 101\<rparr>) +
      maxStep (example_config\<lparr>precision := 101\<rparr>) + 1 = 2"
    by (simp add: example_config_def)
  have a: "map fst (stepsMap (snd (generate exact_ops
     (example_config\<lparr>suffixType := Values, suffixValues := [''sm'', ''sm'']\<rparr>)))) \<noteq>
   map (\<lambda>x. ''--'' @ prefix (example_config\<lparr>suffixType := Values, suffixValues := [''sm'', ''sm'']\<rparr>) @ x)
     (take (minStep (example_config\<lparr>suffixType := Values, suffixValues := [''sm'', ''sm'']\<rparr>) +
            maxStep (example_config\<lparr>suffixType := Values, suffixValues := [''sm'', ''sm'']\<rparr>) + 1)
        (suffixValues (example_config\<lparr>suffixType := Values, suffixValues := [''sm'', ''sm'']\<rparr>)))"
    unfolding generate_duplicate_suffix by (simp add: example_config_def)
  have b: "map fst (stepsMap (snd (generate exact_ops (example_config\<lparr>precision := 101\<rparr>)))) \<noteq>
   map (key (example_config\<lparr>precision := 101\<rparr>))
     [0..<minStep (example_config\<lparr>precision := 101\<rparr>) +
          maxStep (example_config\<lparr>precision := 101\<rparr>) + 1]"
    unfolding example_precision_101 n by simp
  from a b show ?thesis by (rule conjI)
qed

text \<open>
  C5 (as amended). With \<open>replaceInline\<close> off, the \<^verbatim>\<open>Rule\<close> visitor replaces every comment
  below the rule, at any depth, whose text is \<open>generatorDirective\<close> by one declaration for
  each entry of the mapping, in its order, with the key as property and the expression as
  value; a comment of another text and a declaration stay as they are. In a document the
  rules are expanded where they stand, at the top level or inside at-rules, and the nodes
  outside every rule, comments with the directive text among them, are kept. A rule or a
  document with no comment of the directive text is unchanged, and with \<open>replaceInline\<close>
  on nothing is changed at all.
\<close>

theorem directive_expansion:
  "(replaceInline c \<longrightarrow> Rule c m rule = rule \<and> process_document c m doc = doc) \<and>
   (\<not> replaceInline c \<longrightarrow>
      Rule c m (N_rule sel kids) = N_rule sel (walkComments (directive_cb c m) kids) \<and>
      walkComments (directive_cb c m) [] = [] \<and>
      walkComments (directive_cb c m) (N_comment (generatorDirective c) # ys) =
        map (\<lambda>(k, v). N_decl k v) m @ walkComments (directive_cb c m) ys \<and>
      (t \<noteq> generatorDirective c \<longrightarrow>
         walkComments (directive_cb c m) (N_comment t # ys) =
           N_comment t # walkComments (directive_cb c m) ys) \<and>
      walkComments (directive_cb c m) (N_decl p v # ys) =
        N_decl p v # walkComments (directive_cb c m) ys \<and>
      walkComments (directive_cb c m) (N_rule sel' inner # ys) =
        N_rule sel' (walkComments (directive_cb c m) inner) # walkComments (directive_cb c m) ys \<and>
      walkComments (directive_cb c m) (N_atrule name params inner # ys) =
        N_atrule name params (walkComments (directive_cb c m) inner) #
        walkComments (directive_cb c m) ys \<and>
      (generatorDirective c \<notin> set (comments_of rule) \<longrightarrow> Rule c m rule = rule) \<and>
      process_document c m [] = [] \<and>
      process_document c m (N_rule sel kids # ys) =
        Rule c m (N_rule sel kids) # process_document c m ys \<and>
      process_document c m (N_atrule name params inner # ys) =
        N_atrule name params (process_document c m inner) # process_document c m ys \<and>
      process_document c m (N_comment t # ys) = N_comment t # process_document c m ys \<and>
      process_document c m (N_decl p v # ys) = N_decl p v # process_document c m ys \<and>
      ((\<forall>n \<in> set doc. generatorDirective c \<notin> set (comments_of n)) \<longrightarrow>
         process_document c m doc = doc))"
proof -
  have on: "replaceInline c \<longrightarrow> Rule c m rule = rule \<and> process_document c m doc = doc"
    by (simp add: Rule_def process_document_def visit_rules_inline map_idI)
  have rule: "\<not> replaceInline c \<longrightarrow>
      Rule c m (N_rule sel kids) = N_rule sel (walkComments (directive_cb c m) kids)"
    by (simp add: Rule_def)
  have walk: "walkComments (directive_cb c m) [] = [] \<and>
      walkComments (directive_cb c m) (N_comment (generatorDirective c) # ys) =
        map (\<lambda>(k, v). N_decl k v) m @ walkComments (directive_cb c m) ys \<and>
      (t \<noteq> generatorDirective c \<longrightarrow>
         walkComments (directive_cb c m) (N_comment t # ys) =
           N_comment t # walkComments (directive_cb c m) ys) \<and>
      walkComments (directive_cb c m) (N_decl p v # ys) =
        N_decl p v # walkComments (directive_cb c m) ys \<and>
      walkComments (directive_cb c m) (N_rule sel' inner # ys) =
        N_rule sel' (walkComments (directive_cb c m) inner) # walkComments (directive_cb c m) ys \<and>
      walkComments (directive_cb c m) (N_atrule name params inner # ys) =
        N_atrule name params (walkComments (directive_cb c m) inner) #
        walkComments (directive_cb c m) ys"
    by (simp add: walkComments_def directive_cb_def fontVars_def)
  have none: "generatorDirective c \<notin> set (comments_of rule) \<longrightarrow> Rule c m rule = rule"
    using Rule_no_directive [of c rule m] by blast
  have doc: "process_document c m [] = [] \<and>
      process_document c m (N_rule sel kids # ys) =
        Rule c m (N_rule sel kids) # process_document c m ys \<and>
      process_document c m (N_atrule name params inner # ys) =
        N_atrule name params (process_document c m inner) # process_document c m ys \<and>
      process_document c m (N_comment t # ys) = N_comment t # process_document c m ys \<and>
      process_document c m (N_decl p v # ys) = N_decl p v # process_document c m ys"
    by (simp add: process_document_def)
  have clean: "(\<forall>n \<in> set doc. generatorDirective c \<notin> set (comments_of n)) \<longrightarrow>
         process_document c m doc = doc"
    by (simp add: process_document_def visit_rules_no_directive map_idI)
  from on rule walk none doc clean show ?thesis by blast
qed

theorem directive_expansion_witness:
  "Rule example_config [(''--fs0'', ''a''), (''--fs1'', ''b'')]
     (N_rule ''h1'' [N_comment ''postcss-modular-type-generate'', N_comment ''note'']) =
   N_rule ''h1'' [N_decl ''--fs0'' ''a'', N_decl ''--fs1'' ''b'', N_comment ''note'']"
proof -
  let ?m = "[(''--fs0'', ''a''), (''--fs1'', ''b'')]"
  have off: "\<not> replaceInline example_config"
    and dir: "generatorDirective example_config = ''postcss-modular-type-generate''"
    by (simp_all add: example_config_def)
  note th = directive_expansion [where c = example_config and m = ?m and t = "''note''",
      unfolded dir]
  from th off have r: "Rule example_config ?m
      (N_rule ''h1'' [N_comment ''postcss-modular-type-generate'', N_comment ''note'']) =
    N_rule ''h1'' (walkComments (directive_cb example_config ?m)
      [N_comment ''postcss-modular-type-generate'', N_comment ''note''])"
    by blast
  from th off have e: "walkComments (directive_cb example_config ?m) [] = []" by blast
  from th off have d: "walkComments (directive_cb example_config ?m)
      [N_comment ''postcss-modular-type-generate'', N_comment ''note''] =
    map (\<lambda>(k, v). N_decl k v) ?m @ walkComments (directive_cb example_config ?m) [N_comment ''note'']"
    by blast
  have "''note'' \<noteq> ''postcss-modular-type-generate''" by simp
  with th off have n: "walkComments (directive_cb example_config ?m) [N_comment ''note''] =
    N_comment ''note'' # walkComments (directive_cb example_config ?m) []"
    by blast
  show ?thesis unfolding r d n e by simp
qed

theorem directive_expansion_counterexample:
  "\<not> replaceInline example_config \<and>
   generatorDirective example_config = ''postcss-modular-type-generate'' \<and>
   process_document example_config [(''--fs0'', ''a'')]
     [N_comment ''postcss-modular-type-generate'',
      N_atrule ''media'' ''print'' [N_comment ''postcss-modular-type-generate'']] =
   [N_comment ''postcss-modular-type-generate'',
    N_atrule ''media'' ''print'' [N_comment ''postcss-modular-type-generate'']]"
  by (simp add: top_level_directive_kept) (simp add: example_config_def)

text \<open>
  C6. With \<open>replaceInline\<close> on and \<open>prefix\<close> a substring of the declaration's value, the
  \<^verbatim>\<open>Declaration\<close> visitor tokenizes the value and overwrites the whole value with the
  expression of the last word token (in walk order) that is a key of the scale mapping;
  with no such token, or when \<open>replaceInline\<close> is off or \<open>prefix\<close> does not occur, the
  declaration is unchanged. So \<^verbatim>\<open>color: var(--font-size-0)\<close>, tokenized as the function
  \<^verbatim>\<open>var\<close> around the word \<^verbatim>\<open>--font-size-0\<close>, gets the expression the mapping holds
  under \<^verbatim>\<open>--font-size-0\<close> as its whole value.
\<close>

theorem inline_replacement:
  "(replaceInline c \<and> (\<exists>a b. dvalue d = a @ prefix c @ b) \<longrightarrow>
      Declaration c valueParser (stepsMap (snd (generate ops c))) d =
        d\<lparr>dvalue :=
            last (dvalue d #
              map (\<lambda>w. the (map_of (stepsMap (snd (generate ops c))) w))
                (filter (\<lambda>w. w \<in> fst ` set (stepsMap (snd (generate ops c))))
                   (concat (map words_of (valueParser (dvalue d))))))\<rparr>) \<and>
   (\<not> (replaceInline c \<and> (\<exists>a b. dvalue d = a @ prefix c @ b)) \<longrightarrow>
      Declaration c valueParser (stepsMap (snd (generate ops c))) d = d) \<and>
   (replaceInline c \<and> prefix c = ''font-size-'' \<and>
    valueParser ''var(--font-size-0)'' = [Function ''var'' [Word ''--font-size-0'']] \<and>
    map_of (stepsMap (snd (generate ops c))) ''--font-size-0'' = Some e \<longrightarrow>
      Declaration c valueParser (stepsMap (snd (generate ops c)))
        \<lparr>dprop = ''color'', dvalue = ''var(--font-size-0)''\<rparr> =
      \<lparr>dprop = ''color'', dvalue = e\<rparr>)"
proof -
  let ?m = "stepsMap (snd (generate ops c))"
  have gen: "Declaration c valueParser ?m d' =
        d'\<lparr>dvalue := last (dvalue d' # map (\<lambda>w. the (map_of ?m w))
           (filter (\<lambda>w. w \<in> fst ` set ?m) (concat (map words_of (valueParser (dvalue d'))))))\<rparr>"
    if "replaceInline c" and "\<exists>a b. dvalue d' = a @ prefix c @ b" for d'
    using that
    by (simp add: Declaration_def includes_str_iff fold_walk_words
        fold_replace_word [OF generate_values])
  have off: "Declaration c valueParser ?m d = d"
    if "\<not> (replaceInline c \<and> (\<exists>a b. dvalue d = a @ prefix c @ b))"
    using that by (auto simp: Declaration_def includes_str_iff)
  have ex: "Declaration c valueParser ?m \<lparr>dprop = ''color'', dvalue = ''var(--font-size-0)''\<rparr> =
      \<lparr>dprop = ''color'', dvalue = e\<rparr>"
    if on: "replaceInline c" and pre: "prefix c = ''font-size-''"
      and tok: "valueParser ''var(--font-size-0)'' = [Function ''var'' [Word ''--font-size-0'']]"
      and hit: "map_of ?m ''--font-size-0'' = Some e"
  proof -
    have "''var(--font-size-0)'' = ''var(--'' @ prefix c @ ''0)''" by (simp add: pre)
    then have sub: "\<exists>a b. dvalue \<lparr>dprop = ''color'', dvalue = ''var(--font-size-0)''\<rparr> =
        a @ prefix c @ b"
      by (metis decl.select_convs(2))
    from hit have "''--font-size-0'' \<in> fst ` set ?m"
      by (metis map_of_eq_None_iff option.distinct(1))
    with gen [OF on sub] tok hit show ?thesis by simp
  qed
  from gen [of d] off ex show ?thesis by blast
qed

theorem inline_replacement_witness:
  "Declaration ((defaultConfig exact_ops)\<lparr>replaceInline := True\<rparr>)
     (\<lambda>s. [Function ''var'' [Word ''--font-size-0'']])
     (stepsMap (snd (generate exact_ops ((defaultConfig exact_ops)\<lparr>replaceInline := True\<rparr>))))
     \<lparr>dprop = ''color'', dvalue = ''var(--font-size-0)''\<rparr> =
   \<lparr>dprop = ''color'', dvalue = ''clamp(1.00rem,  0.33vw + 0.93rem , 1.25rem)''\<rparr>"
proof -
  let ?c = "(defaultConfig exact_ops)\<lparr>replaceInline := True\<rparr> :: rat config"
  have "replaceInline ?c" and "prefix ?c = ''font-size-''" by (simp_all add: defaultConfig_def)
  with default_inline_base_entry
    inline_replacement [where c = ?c and ops = exact_ops
      and valueParser = "\<lambda>s. [Function ''var'' [Word ''--font-size-0'']]"
      and e = "''clamp(1.00rem,  0.33vw + 0.93rem , 1.25rem)''"]
  show ?thesis by blast
qed

text \<open>
  C7 (as amended). With the default configuration and \<open>unit = px\<close>, whatever the Number
  primitives compute, \<open>baseIndex = 2\<close>, the powers are \<open>-2, ..., 5\<close>, and the mapping has
  the 8 keys \<^verbatim>\<open>--font-size--2\<close> to \<^verbatim>\<open>--font-size-5\<close>, in this order; every value is
  \<^verbatim>\<open>clamp(<num>px,  <num>vw + <num>px , <num>px)\<close> with exactly this spacing, each
  \<^verbatim>\<open><num>\<close> a result of \<^verbatim>\<open>toFixed(2)\<close>.
\<close>

theorem default_px_scale:
  "fst (generate ops ((defaultConfig ops)\<lparr>unit := Px\<rparr>)) = None \<and>
   baseIndex ((defaultConfig ops)\<lparr>unit := Px\<rparr>) = 2 \<and>
   map (power ((defaultConfig ops)\<lparr>unit := Px\<rparr>)) [0..<8] = [-2, -1, 0, 1, 2, 3, 4, 5] \<and>
   map fst (stepsMap (snd (generate ops ((defaultConfig ops)\<lparr>unit := Px\<rparr>)))) =
     [''--font-size--2'', ''--font-size--1'', ''--font-size-0'', ''--font-size-1'',
      ''--font-size-2'', ''--font-size-3'', ''--font-size-4'', ''--font-size-5''] \<and>
   length (stepsMap (snd (generate ops ((defaultConfig ops)\<lparr>unit := Px\<rparr>)))) = 8 \<and>
   (\<forall>v \<in> set (map snd (stepsMap (snd (generate ops ((defaultConfig ops)\<lparr>unit := Px\<rparr>))))).
      \<exists>x1 x2 x3 x4. v =
        ''clamp('' @ fixed_digits ops x1 2 @ ''px,  '' @ fixed_digits ops x2 2 @ ''vw + '' @
        fixed_digits ops x3 2 @ ''px , '' @ fixed_digits ops x4 2 @ ''px)'')"
proof -
  let ?c = "(defaultConfig ops)\<lparr>unit := Px\<rparr>"
  have 1: "fst (generate ops ?c) = None" by (simp add: default_px_entries)
  have 2: "baseIndex ?c = 2" by (simp add: baseIndex_def defaultConfig_def)
  have 3: "map (power ?c) [0..<8] = [-2, -1, 0, 1, 2, 3, 4, 5]"
    by (simp add: upt_rec power_def 2)
  have 5: "length (stepsMap (snd (generate ops ?c))) = 8" by (simp add: default_px_entries)
  have 6: "\<exists>x1 x2 x3 x4. v =
        ''clamp('' @ fixed_digits ops x1 2 @ ''px,  '' @ fixed_digits ops x2 2 @ ''vw + '' @
        fixed_digits ops x3 2 @ ''px , '' @ fixed_digits ops x4 2 @ ''px)''"
    if "v \<in> set (map snd (stepsMap (snd (generate ops ?c))))" for v
  proof -
    from that obtain s where "v = entry_value ops ?c (to_rem_locals ops ?c (init_locals ?c)) s"
      unfolding default_px_entries by auto
    with entry_value_px [of ?c ops "to_rem_locals ops ?c (init_locals ?c)" s]
    show ?thesis unfolding default_px_facts by simp
  qed
  from 1 2 3 5 6 default_px_key_list [of ops] show ?thesis by blast
qed

theorem default_px_scale_witness:
  "map fst (stepsMap (snd (generate exact_ops ((defaultConfig exact_ops)\<lparr>unit := Px\<rparr>)))) =
     [''--font-size--2'', ''--font-size--1'', ''--font-size-0'', ''--font-size-1'',
      ''--font-size-2'', ''--font-size-3'', ''--font-size-4'', ''--font-size-5''] \<and>
   (\<exists>x1 x2 x3 x4.
      snd (hd (stepsMap (snd (generate exact_ops ((defaultConfig exact_ops)\<lparr>unit := Px\<rparr>))))) =
        ''clamp('' @ exact_toFixed x1 2 @ ''px,  '' @ exact_toFixed x2 2 @ ''vw + '' @
        exact_toFixed x3 2 @ ''px , '' @ exact_toFixed x4 2 @ ''px)'')"
proof -
  let ?m = "stepsMap (snd (generate exact_ops ((defaultConfig exact_ops)\<lparr>unit := Px\<rparr>)))"
  have fd: "fixed_digits exact_ops = exact_toFixed" by (simp add: exact_ops_def)
  from default_px_scale [of exact_ops] have len: "length ?m = 8" by blast
  then have "?m \<noteq> []" by auto
  then have "snd (hd ?m) \<in> set (map snd ?m)" by (cases ?m) simp_all
  with default_px_scale [of exact_ops] show ?thesis unfolding fd by blast
qed

theorem default_px_scale_counterexample:
  "last (map fst (stepsMap (snd (generate exact_ops ((defaultConfig exact_ops)\<lparr>unit := Px\<rparr>))))) =
     ''--font-size-5'' \<and>
   last (map fst (stepsMap (snd (generate exact_ops ((defaultConfig exact_ops)\<lparr>unit := Px\<rparr>))))) \<noteq>
     ''--font-size-3''"
  unfolding default_px_key_list by simp

text \<open>
  C8 (the code at a failing input). \<^verbatim>\<open>Object.assign(defaultConfig, opts)\<close> writes the
  caller's options into the shared defaults. After a first call with \<open>minStep = 3\<close>, a
  second call without options resolves \<open>minStep\<close> to 3 and builds 9 entries, where the
  same call on fresh defaults resolves it to the documented 2 and builds 8.
\<close>

theorem shared_defaults_leak:
  "minStep (snd (plugin exact_ops no_options
      (snd (plugin exact_ops (no_options\<lparr>opt_minStep := Some 3\<rparr>) (defaultConfig exact_ops))))) = 3 \<and>
   minStep (snd (plugin exact_ops no_options (defaultConfig exact_ops))) = 2 \<and>
   length (stepsMap (snd (fst (plugin exact_ops no_options
      (snd (plugin exact_ops (no_options\<lparr>opt_minStep := Some 3\<rparr>) (defaultConfig exact_ops))))))) = 9 \<and>
   length (stepsMap (snd (fst (plugin exact_ops no_options (defaultConfig exact_ops))))) = 8"
proof -
  let ?d = "defaultConfig exact_ops :: rat config"
  have a: "length (stepsMap (snd (generate exact_ops (?d\<lparr>minStep := 3\<rparr>)))) =
      Suc (maxStep (?d\<lparr>minStep := 3\<rparr>) + minStep (?d\<lparr>minStep := 3\<rparr>))"
    by (rule generate_length) (simp_all add: defaultConfig_def insufficient_def)
  have b: "length (stepsMap (snd (generate exact_ops ?d))) = Suc (maxStep ?d + minStep ?d)"
    by (rule generate_length) (simp_all add: defaultConfig_def insufficient_def)
  have "minStep (?d\<lparr>minStep := 3\<rparr>) = 3" "maxStep (?d\<lparr>minStep := 3\<rparr>) = 5"
    "minStep ?d = 2" "maxStep ?d = 5"
    by (simp_all add: defaultConfig_def)
  with a b show ?thesis
    by (simp add: plugin_def assign_no_options assign_minStep)
qed

text \<open>
  C9. When \<open>minStep < maxStep\<close>, the step \<open>maxStep - minStep - 1\<close> is generated and has
  power 0. Given that \<^verbatim>\<open>x * Math.pow(r, 0)\<close> is \<open>x\<close> (as it is for IEEE doubles), at that
  step \<open>fsMinFinal\<close> is \<open>minFontSize\<close> (divided by \<open>rootFontSize\<close> when the unit is
  \<open>rem\<close>) rendered by \<^verbatim>\<open>toFixed(precision)\<close> with the unit appended, and \<open>fsMaxFinal\<close>
  is \<open>maxFontSize\<close> rendered the same way; these are the first and the last argument of
  the \<^verbatim>\<open>clamp\<close> expression the mapping holds for that step.
\<close>

theorem base_step_sizes:
  assumes "minStep c < maxStep c"
    and "\<forall>x r. mul_n ops x (pow_n ops r 0) = x"
  shows
    "let base = maxStep c - minStep c - 1;
         L = to_rem_locals ops c (init_locals c);
         minF = (if unit c = Rem then div_n ops (minFontSize c) (rootFontSize c)
                 else minFontSize c);
         maxF = (if unit c = Rem then div_n ops (maxFontSize c) (rootFontSize c)
                 else maxFontSize c)
     in base \<le> minStep c + maxStep c \<and> power c base = 0 \<and>
        fsMinFinal ops c L base = with_unit c (toFixed ops minF (precision c)) \<and>
        fsMaxFinal ops c L base = with_unit c (toFixed ops maxF (precision c)) \<and>
        (precision c \<le> 100 \<and>
         (suffixType c = Values \<longrightarrow> minStep c + maxStep c < length (suffixValues c)) \<and>
         (\<forall>t. base < t \<and> t \<le> minStep c + maxStep c \<longrightarrow> key c t \<noteq> key c base) \<longrightarrow>
         (\<exists>slopeV yInt.
            map_of (stepsMap (snd (generate ops c))) (key c base) =
              Some (''clamp('' @ fixed_digits ops minF (precision c) @ unit_str (unit c) @
                    '',  '' @ slopeV @ ''vw + '' @ yInt @ unit_str (unit c) @ '' , '' @
                    fixed_digits ops maxF (precision c) @ unit_str (unit c) @ '')'')))"
proof -
  define base where "base = maxStep c - minStep c - 1"
  define L where "L = to_rem_locals ops c (init_locals c)"
  define minF where
    "minF = (if unit c = Rem then div_n ops (minFontSize c) (rootFontSize c) else minFontSize c)"
  define maxF where
    "maxF = (if unit c = Rem then div_n ops (maxFontSize c) (rootFontSize c) else maxFontSize c)"
  have le: "base \<le> minStep c + maxStep c" using assms(1) by (simp add: base_def)
  have pw: "power c base = 0" using assms(1) by (simp add: power_def baseIndex_def base_def)
  have lmin: "l_minFontSize L = minF" and lmax: "l_maxFontSize L = maxF"
    by (simp_all add: L_def minF_def maxF_def to_rem_locals_def init_locals_def toRem_def)
  have smin: "fsMinSize ops c L base = minF"
    using assms(2) by (simp add: fsMinSize_def minStepRatio_def pw lmin)
  have smax: "fsMaxSize ops c L base = maxF"
    using assms(2) by (simp add: fsMaxSize_def maxStepRatio_def pw lmax)
  have fmin: "fsMinFinal ops c L base = with_unit c (toFixed ops minF (precision c))"
    by (simp add: fsMinFinal_def smin)
  have fmax: "fsMaxFinal ops c L base = with_unit c (toFixed ops maxF (precision c))"
    by (simp add: fsMaxFinal_def smax)
  have entry: "\<exists>slopeV yInt.
      map_of (stepsMap (snd (generate ops c))) (key c base) =
        Some (''clamp('' @ fixed_digits ops minF (precision c) @ unit_str (unit c) @
              '',  '' @ slopeV @ ''vw + '' @ yInt @ unit_str (unit c) @ '' , '' @
              fixed_digits ops maxF (precision c) @ unit_str (unit c) @ '')'')"
    if p: "precision c \<le> 100"
      and v: "suffixType c = Values \<longrightarrow> minStep c + maxStep c < length (suffixValues c)"
      and l: "\<forall>t. base < t \<and> t \<le> minStep c + maxStep c \<longrightarrow> key c t \<noteq> key c base"
  proof -
    have suff: "\<not> insufficient c" using v by (simp add: sufficient_iff)
    have le': "base \<le> maxStep c + minStep c" using le by simp
    have l': "\<forall>t. base < t \<and> t \<le> maxStep c + minStep c \<longrightarrow> key c t \<noteq> key c base"
      using l by (simp add: add.commute)
    have "map_of (stepsMap (snd (generate ops c))) (key c base) = Some (entry_value ops c L base)"
      unfolding L_def by (rule generate_lookup [OF suff p le' l'])
    then show ?thesis
      by (intro exI [of _ "fixed_digits ops (mul_n ops (slope ops c L base) (number ops 100)) (precision c)"]
          exI [of _ "fixed_digits ops (sub_n ops (fsMinSize ops c L base)
                 (mul_n ops (slope ops c L base) (l_minScreenWidth L))) (precision c)"])
        (simp add: entry_value_def clamp_text_def smin smax)
  qed
  from le pw fmin fmax entry show ?thesis
    unfolding Let_def base_def [symmetric] L_def [symmetric] minF_def [symmetric]
      maxF_def [symmetric]
    by blast
qed

theorem base_step_sizes_witness:
  "minStep (example_config\<lparr>unit := Rem\<rparr>) < maxStep (example_config\<lparr>unit := Rem\<rparr>) \<and>
   power (example_config\<lparr>unit := Rem\<rparr>) 0 = 0 \<and>
   fsMinFinal exact_ops (example_config\<lparr>unit := Rem\<rparr>)
     (to_rem_locals exact_ops (example_config\<lparr>unit := Rem\<rparr>)
        (init_locals (example_config\<lparr>unit := Rem\<rparr>))) 0 = Inr ''1.00rem'' \<and>
   fsMaxFinal exact_ops (example_config\<lparr>unit := Rem\<rparr>)
     (to_rem_locals exact_ops (example_config\<lparr>unit := Rem\<rparr>)
        (init_locals (example_config\<lparr>unit := Rem\<rparr>))) 0 = Inr ''2.00rem''"
proof -
  let ?c = "example_config\<lparr>unit := Rem\<rparr>"
  have lt: "minStep ?c < maxStep ?c" by (simp add: example_config_def)
  have one: "\<forall>x r. mul_n exact_ops x (pow_n exact_ops r 0) = x" by (simp add: exact_ops_def)
  have base: "maxStep ?c - minStep ?c - 1 = 0" by (simp add: example_config_def)
  have fmt: "with_unit ?c (toFixed exact_ops (div_n exact_ops (minFontSize ?c) (rootFontSize ?c))
      (precision ?c)) = Inr ''1.00rem''"
    "with_unit ?c (toFixed exact_ops (div_n exact_ops (maxFontSize ?c) (rootFontSize ?c))
      (precision ?c)) = Inr ''2.00rem''"
    by (simp_all add: with_unit_def toFixed_def exact_ops_def example_config_def unit_str_def
        rem_digits)
  have rem: "unit ?c = Rem" by simp
  from base_step_sizes [OF lt one] lt show ?thesis
    unfolding Let_def base fmt [symmetric] rem by simp
qed

text \<open>
  C10. When \<open>maxStep \<le> minStep\<close>, \<open>baseIndex\<close> is negative and the power of every step is
  at least \<open>minStep - maxStep + 1\<close>, hence at least 1: no step has power 0, every entry
  of the mapping belongs to a step of positive power, and with numbered suffixes every key
  ends in a positive integer.
\<close>

theorem no_base_step:
  assumes "maxStep c \<le> minStep c"
  shows "baseIndex c < 0 \<and>
    (\<forall>step. int (minStep c) - int (maxStep c) + 1 \<le> power c step \<and> 1 \<le> power c step) \<and>
    (\<forall>k \<in> fst ` set (stepsMap (snd (generate ops c))).
       \<exists>step. step \<le> minStep c + maxStep c \<and> k = key c step \<and> 1 \<le> power c step) \<and>
    (suffixType c = Numbered \<longrightarrow>
       (\<forall>k \<in> fst ` set (stepsMap (snd (generate ops c))).
          \<exists>p. 1 \<le> p \<and> k = ''--'' @ prefix c @ show_int p))"
proof -
  have b: "baseIndex c < 0" using assms by (simp add: baseIndex_def)
  have p: "int (minStep c) - int (maxStep c) + 1 \<le> power c step \<and> 1 \<le> power c step" for step
    using assms by (simp add: power_def baseIndex_def)
  have k: "\<exists>step. step \<le> minStep c + maxStep c \<and> k = key c step \<and> 1 \<le> power c step"
    if "k \<in> fst ` set (stepsMap (snd (generate ops c)))" for k
  proof -
    from that generate_keys [of ops c] obtain step
      where "step \<le> maxStep c + minStep c" and "k = key c step" by auto
    with p [of step] show ?thesis by (auto simp: add.commute)
  qed
  have n: "\<exists>p. 1 \<le> p \<and> k = ''--'' @ prefix c @ show_int p"
    if "suffixType c = Numbered" and "k \<in> fst ` set (stepsMap (snd (generate ops c)))" for k
  proof -
    from k [OF that(2)] obtain step where "k = key c step" and "1 \<le> power c step" by blast
    with that(1) show ?thesis by (auto simp: key_def)
  qed
  from b p k n show ?thesis by blast
qed

theorem no_base_step_witness:
  "maxStep (example_config\<lparr>minStep := 1\<rparr>) \<le> minStep (example_config\<lparr>minStep := 1\<rparr>) \<and>
   baseIndex (example_config\<lparr>minStep := 1\<rparr>) < 0 \<and>
   map fst (stepsMap (snd (generate exact_ops (example_config\<lparr>minStep := 1\<rparr>)))) =
     [''--fs1'', ''--fs2'', ''--fs3''] \<and>
   (\<exists>p. 1 \<le> p \<and> ''--fs1'' = ''--'' @ prefix (example_config\<lparr>minStep := 1\<rparr>) @ show_int p)"
proof -
  let ?c = "example_config\<lparr>minStep := 1\<rparr>"
  have le: "maxStep ?c \<le> minStep ?c" by (simp add: example_config_def)
  have num: "suffixType ?c = Numbered" by (simp add: example_config_def)
  have "generate exact_ops ?c =
     (None, (to_rem_locals exact_ops ?c (init_locals ?c))\<lparr>stepsMap :=
        map (\<lambda>s. (key ?c s, entry_value exact_ops ?c (to_rem_locals exact_ops ?c (init_locals ?c)) s))
          [0..<Suc (maxStep ?c + minStep ?c)]\<rparr>)"
    by (rule generate_entries) (simp_all add: example_config_def insufficient_def)
  then have keys: "map fst (stepsMap (snd (generate exact_ops ?c))) =
      [''--fs1'', ''--fs2'', ''--fs3'']"
    by (simp add: example_config_def key_def power_def baseIndex_def show_int_def
        show_nat_small digit_char_def upt_rec)
  have "fst ` set (stepsMap (snd (generate exact_ops ?c))) =
      set (map fst (stepsMap (snd (generate exact_ops ?c))))"
    by simp
  with keys have mem: "''--fs1'' \<in> fst ` set (stepsMap (snd (generate exact_ops ?c)))"
    by simp
  from no_base_step [OF le, of exact_ops] le num keys mem show ?thesis by blast
qed

end
